theory Spec2Isabelle
  imports Main "HOL-Library.AList" "HOL-Library.Char_ord"
begin

section \<open>Shared data model\<close>

text \<open>
  Strings are ASCII character lists.  A JavaScript object used as a dictionary is an
  association list in \<open>Object.keys\<close> order: assigning to a present key keeps its
  position, assigning to a new key appends it (\<open>AList.update\<close>).  Keys that look like
  array indices and keys inherited from \<open>Object.prototype\<close> are outside the model.

  A promise is modelled by its state.  A thrown exception is the \<open>Inl\<close> of a sum; it
  aborts the request, and the model does not follow the state behind it.
\<close>

datatype error =
    TypeError
  | LoadError string
  | EmitError nat

type_synonym diagnostic = string

datatype promise = Pending | Fulfilled | Rejected error

text \<open>
  The collaborators that are not part of the repository's core files: the helpers of
  \<open>utils\<close>, the TypeScript library's \<open>normalizePath\<close> and \<open>preProcessFile\<close> (referenced
  files first, imported files second), the loader's \<open>fetch\<close> and \<open>resolve\<close> (a promise
  is given by what it settles to), and \<open>convert-source-map\<close>: \<open>mapToComment\<close> is
  \<open>convert.fromJSON(maptext).toComment()\<close> and \<open>replaceMapFileComment js c\<close> is
  \<open>js.replace(convert.mapFileCommentRegex, c)\<close>.
\<close>

record env =
  isAmbient :: "string \<Rightarrow> bool"
  isTypescript :: "string \<Rightarrow> bool"
  isTypescriptDeclaration :: "string \<Rightarrow> bool"
  tsToJs :: "string \<Rightarrow> string"
  tsToJsMap :: "string \<Rightarrow> string"
  normalizePath :: "string \<Rightarrow> string"
  preProcessFile :: "string \<Rightarrow> string list \<times> string list"
  fetch :: "string \<Rightarrow> error + string"
  resolve :: "string \<Rightarrow> string option \<Rightarrow> error + string"
  mapToComment :: "string \<Rightarrow> string"
  replaceMapFileComment :: "string \<Rightarrow> string \<Rightarrow> string"

text \<open>
  An entry of \<open>_files\<close> of the incremental compiler.  \<open>loadedId\<close> is the identity of
  the promise object stored in \<open>loaded\<close> (its allocation number), \<open>loaded\<close> its state.
\<close>

record fileEntry =
  tsname :: string
  srcText :: "string option"
  deps :: "string list option"
  loadedId :: nat
  loaded :: promise
  diagnostics :: "diagnostic list option"

type_synonym files = "(string \<times> fileEntry) list"

section \<open>Incremental compiler: ambient rewriting\<close>

definition toUpperCase_char :: "char \<Rightarrow> char" where
  "toUpperCase_char c =
     (if CHR ''a'' \<le> c \<and> c \<le> CHR ''z'' then char_of (of_char c - (32::nat)) else c)"

definition toLowerCase_char :: "char \<Rightarrow> char" where
  "toLowerCase_char c =
     (if CHR ''A'' \<le> c \<and> c \<le> CHR ''Z'' then char_of (of_char c + (32::nat)) else c)"

definition toLowerCase :: "string \<Rightarrow> string" where
  "toLowerCase s = map toLowerCase_char s"

text \<open>
  \<open>matchesAt key s\<close>: the escaped key, a literal pattern, matches at the start of \<open>s\<close>
  under the \<open>i\<close> flag (both sides canonicalised to upper case).
\<close>

fun matchesAt :: "string \<Rightarrow> string \<Rightarrow> bool" where
  "matchesAt [] s = True"
| "matchesAt (k # ks) [] = False"
| "matchesAt (k # ks) (c # cs) =
     (toUpperCase_char k = toUpperCase_char c \<and> matchesAt ks cs)"

text \<open>The alternation \<open>k1|k2|...\<close> tries its alternatives from left to right.\<close>

fun firstAlternative :: "string list \<Rightarrow> string \<Rightarrow> string option" where
  "firstAlternative [] s = None"
| "firstAlternative (k # ks) s =
     (if matchesAt k s then Some k else firstAlternative ks s)"

text \<open>
  The callback of \<open>mapReplace\<close>: \<open>mapObj[matched.toLowerCase()]\<close>; a missing key
  gives \<open>undefined\<close>, which \<open>String.prototype.replace\<close> inserts as text.
\<close>

definition replacement :: "(string \<times> string) list \<Rightarrow> string \<Rightarrow> string" where
  "replacement mapObj matched =
     (case map_of mapObj (toLowerCase matched) of
        None \<Rightarrow> ''undefined''
      | Some v \<Rightarrow> v)"

text \<open>
  \<open>str.replace(rx, f)\<close> with the \<open>g\<close> flag: scan from the left, replace each match
  and continue behind it; after an empty match one character is copied.
\<close>

function replaceGlobal :: "string list \<Rightarrow> (string \<Rightarrow> string) \<Rightarrow> string \<Rightarrow> string" where
  "replaceGlobal keys f [] =
     (case firstAlternative keys [] of None \<Rightarrow> [] | Some k \<Rightarrow> f [])"
| "replaceGlobal keys f (c # cs) =
     (case firstAlternative keys (c # cs) of
        None \<Rightarrow> c # replaceGlobal keys f cs
      | Some k \<Rightarrow>
          (if k = [] then f [] @ c # replaceGlobal keys f cs
           else f (take (length k) (c # cs)) @ replaceGlobal keys f (drop (length k) (c # cs))))"
  by pat_completeness auto
termination
  by (relation "measure (\<lambda>(keys, f, s). length s)") auto

text \<open>
  The pattern of \<open>mapReplace\<close> is the keys joined by \<open>|\<close>.  For an object without
  keys the join is the empty string, and \<open>new RegExp("", "gi")\<close> is the pattern with
  the one empty alternative: it matches the empty string at every position.
\<close>

definition mapReplace :: "string \<Rightarrow> (string \<times> string) list \<Rightarrow> string" where
  "mapReplace str mapObj =
     replaceGlobal (if mapObj = [] then [[]] else map fst mapObj) (replacement mapObj) str"

text \<open>
  The \<open>forEach\<close> of \<open>replaceAmbients\<close>; \<open>None\<close> is the \<open>undefined\<close> replace map.
  Reading \<open>tsname\<close> of an absent file entry throws.
\<close>

fun collectAmbients ::
  "env \<Rightarrow> files \<Rightarrow> (string \<times> string) list \<Rightarrow>
   (string \<times> string) list option \<Rightarrow> error + (string \<times> string) list option" where
  "collectAmbients E fs [] replaceMap = Inr replaceMap"
| "collectAmbients E fs ((key, res) # rest) replaceMap =
     (if isAmbient E key then
        (case map_of fs res of
           None \<Rightarrow> Inl TypeError
         | Some f \<Rightarrow>
             collectAmbients E fs rest
               (Some (AList.update key (tsname f)
                  (case replaceMap of None \<Rightarrow> [] | Some m \<Rightarrow> m))))
      else collectAmbients E fs rest replaceMap)"

definition replaceAmbients ::
  "env \<Rightarrow> files \<Rightarrow> string \<Rightarrow> (string \<times> string) list \<Rightarrow> error + string" where
  "replaceAmbients E fs txt depsMap =
     (case collectAmbients E fs depsMap None of
        Inl e \<Rightarrow> Inl e
      | Inr None \<Rightarrow> Inr txt
      | Inr (Some replaceMap) \<Rightarrow> Inr (mapReplace txt replaceMap))"

section \<open>Incremental compiler: diagnostics and emit\<close>

text \<open>
  The language service.  Its answers depend on the files the host holds; no file is
  added while \<open>getCompilationResults\<close> runs, so one request sees one \<open>backend\<close>.
  Every call is logged under the unit it is made for (the service receives the unit's
  \<open>tsname\<close>).
\<close>

datatype backendCall =
    GetSemanticDiagnostics string
  | GetSyntacticDiagnostics string
  | GetCompilerOptionsDiagnostics
  | GetEmitOutput string

record outputFile =
  name :: string
  content :: string

record emitOutput =
  emitOutputStatus :: nat
  outputFiles :: "outputFile list"

record backend =
  getSemanticDiagnostics :: "string \<Rightarrow> diagnostic list"
  getSyntacticDiagnostics :: "string \<Rightarrow> diagnostic list"
  getCompilerOptionsDiagnostics :: "diagnostic list"
  getEmitOutput :: "string \<Rightarrow> emitOutput"

text \<open>\<open>ts.EmitReturnStatus.Succeeded\<close>\<close>

definition Succeeded :: nat where
  "Succeeded = 0"

definition getFileDiagnostics ::
  "backend \<Rightarrow> string \<Rightarrow> files \<times> backendCall list \<Rightarrow>
   error + (diagnostic list \<times> files \<times> backendCall list)" where
  "getFileDiagnostics be filename st =
     (case st of (fs, calls) \<Rightarrow>
        (case map_of fs filename of
           None \<Rightarrow> Inl TypeError
         | Some f \<Rightarrow>
             (case diagnostics f of
                Some d \<Rightarrow> Inr (d, fs, calls)
              | None \<Rightarrow>
                  (let d = getSemanticDiagnostics be (tsname f) @
                           getSyntacticDiagnostics be (tsname f)
                   in Inr (d, AList.update filename (f\<lparr>diagnostics := Some d\<rparr>) fs,
                           calls @ [GetSemanticDiagnostics filename,
                                    GetSyntacticDiagnostics filename])))))"

text \<open>
  \<open>getAllDiagnostics(filename, seen)\<close>.  The array \<open>seen\<close> is shared by all recursive
  calls, so it is threaded through them together with \<open>_files\<close> and the call log;
  \<open>depDiagnostics\<close> is the \<open>reduce\<close> over the declaration dependencies.
\<close>

type_synonym walk = "string list \<times> files \<times> backendCall list"

function getAllDiagnostics ::
    "env \<Rightarrow> backend \<Rightarrow> string \<Rightarrow> walk \<Rightarrow> error + (diagnostic list \<times> walk)"
  and depDiagnostics ::
    "env \<Rightarrow> backend \<Rightarrow> string list \<Rightarrow> diagnostic list \<Rightarrow> walk \<Rightarrow>
     error + (diagnostic list \<times> walk)" where
  "getAllDiagnostics E be filename (seen, fs, calls) =
     (if filename \<in> set seen then Inr ([], (seen, fs, calls))
      else
        (case map_of fs filename of
           None \<Rightarrow> Inl TypeError
         | Some f \<Rightarrow>
             (case deps f of
                None \<Rightarrow> Inl TypeError
              | Some ds \<Rightarrow>
                  (case depDiagnostics E be (filter (isTypescriptDeclaration E) ds) []
                          (seen @ [filename], fs, calls) of
                     Inl e \<Rightarrow> Inl e
                   | Inr (depDiags, (seen', st')) \<Rightarrow>
                       (case getFileDiagnostics be filename st' of
                          Inl e \<Rightarrow> Inl e
                        | Inr (d, st'') \<Rightarrow> Inr (d @ depDiags, (seen', st'')))))))"
| "depDiagnostics E be [] result w = Inr (result, w)"
| "depDiagnostics E be (dep # rest) result w =
     (case getAllDiagnostics E be dep w of
        Inl e \<Rightarrow> Inl e
      | Inr (r, w') \<Rightarrow> depDiagnostics E be rest (result @ r) w')"
  by pat_completeness auto

lemma getFileDiagnostics_keys:
  "getFileDiagnostics be filename (fs, calls) = Inr (d, fs', calls') \<Longrightarrow>
   map fst fs' = map fst fs"
  by (auto simp: getFileDiagnostics_def Let_def update_keys map_of_eq_None_iff
      split: option.splits dest!: map_of_SomeD) (metis fst_conv image_eqI)+

lemma walk_grows_dom:
  "getAllDiagnostics_depDiagnostics_dom (Inl (E, be, filename, w)) \<Longrightarrow>
     getAllDiagnostics E be filename w = Inr (r, w') \<Longrightarrow>
     set (fst w) \<subseteq> set (fst w') \<and> map fst (fst (snd w')) = map fst (fst (snd w))"
  "getAllDiagnostics_depDiagnostics_dom (Inr (E, be, ds, result, w)) \<Longrightarrow>
     depDiagnostics E be ds result w = Inr (r, w') \<Longrightarrow>
     set (fst w) \<subseteq> set (fst w') \<and> map fst (fst (snd w')) = map fst (fst (snd w))"
proof (induction E be filename w and E be ds result w arbitrary: r w' and r w'
    rule: getAllDiagnostics_depDiagnostics.pinduct)
  case (1 E be filename seen fs calls)
  show ?case
  proof (cases "filename \<in> set seen")
    case True
    with 1(1,3) show ?thesis by (simp add: getAllDiagnostics.psimps)
  next
    case False
    from 1(1,3) False obtain f ds depDiags seen' fs' calls' d st'' where
      f: "map_of fs filename = Some f" and ds: "deps f = Some ds" and
      dd: "depDiagnostics E be (filter (isTypescriptDeclaration E) ds) []
             (seen @ [filename], fs, calls) = Inr (depDiags, (seen', fs', calls'))" and
      fd: "getFileDiagnostics be filename (fs', calls') = Inr (d, st'')" and
      w': "w' = (seen', st'')"
      by (auto simp: getAllDiagnostics.psimps split: option.splits sum.splits)
    from 1(2)[OF False f ds dd] have
      a: "set (seen @ [filename]) \<subseteq> set seen'" and b: "map fst fs' = map fst fs" by auto
    from fd have "map fst (fst st'') = map fst fs'"
      by (cases st'') (auto dest: getFileDiagnostics_keys)
    with a b w' show ?thesis by auto
  qed
next
  case (2 E be result w)
  then show ?case by (simp add: depDiagnostics.psimps)
next
  case (3 E be dep rest result w)
  from 3(1,4) obtain r1 w1 where
    g: "getAllDiagnostics E be dep w = Inr (r1, w1)" and
    d: "depDiagnostics E be rest (result @ r1) w1 = Inr (r, w')"
    by (auto simp: depDiagnostics.psimps split: sum.splits)
  from 3(2)[OF g] 3(3)[OF g refl d] show ?case by auto
qed

termination getAllDiagnostics
proof (relation "inv_image (less_than <*lex*> less_than)
    (\<lambda>x. case x of
       Inl (E, be, filename, seen, fs, calls) \<Rightarrow>
         (card (fst ` set fs - set seen), 0)
     | Inr (E, be, ds, result, seen, fs, calls) \<Rightarrow>
         (card (fst ` set fs - set seen), Suc (length ds)))", goal_cases)
  case 1
  then show ?case by (intro wf_inv_image wf_lex_prod wf_less_than)
next
  case (2 E be filename seen fs calls f ds)
  from 2(2) have "(filename, f) \<in> set fs" by (rule map_of_SomeD)
  then have "filename \<in> fst ` set fs" by force
  with 2(1) have "fst ` set fs - set (seen @ [filename]) \<subset> fst ` set fs - set seen"
    by auto
  then have "card (fst ` set fs - set (seen @ [filename])) < card (fst ` set fs - set seen)"
    by (intro psubset_card_mono) simp_all
  then show ?case by simp
next
  case (3 E be dep rest result w)
  obtain seen fs calls where "w = (seen, fs, calls)" by (cases w) auto
  then show ?case by simp
next
  case (4 E be dep rest result w b r w')
  then have g: "getAllDiagnostics E be dep w = Inr (r, w')" by simp
  from 4 have dom: "getAllDiagnostics_depDiagnostics_dom (Inl (E, be, dep, w))" by simp
  obtain seen fs calls where w: "w = (seen, fs, calls)" by (cases w) auto
  obtain seen' fs' calls' where w': "w' = (seen', fs', calls')" by (cases w') auto
  from walk_grows_dom(1)[OF dom g] w w'
  have s: "set seen \<subseteq> set seen'" and k: "map fst fs' = map fst fs" by simp_all
  from k have "fst ` set fs' = fst ` set fs" by (metis list.set_map)
  with s have "fst ` set fs' - set seen' \<subseteq> fst ` set fs - set seen" by auto
  then have "card (fst ` set fs' - set seen') \<le> card (fst ` set fs - set seen)"
    by (intro card_mono) simp_all
  then have "card (fst ` set fs' - set seen') < card (fst ` set fs - set seen) \<or>
      card (fst ` set fs' - set seen') = card (fst ` set fs - set seen)" by linarith
  then show ?case using w w' by simp
qed

text \<open>The value \<open>getCompilationResults\<close> returns.\<close>

record compilationResult =
  failure :: bool
  errors :: "diagnostic list"
  js :: "string option"
  map_text :: "string option"

text \<open>
  \<open>getCompilationResults(filename)\<close>; \<open>getAllDiagnostics\<close> is called without \<open>seen\<close>,
  which makes it the empty array.  \<open>filter(...)[0].text\<close> throws when no output file
  has the name.
\<close>

definition getCompilationResults ::
  "env \<Rightarrow> backend \<Rightarrow> string \<Rightarrow> files \<times> backendCall list \<Rightarrow>
   error + (compilationResult \<times> files \<times> backendCall list)" where
  "getCompilationResults E be filename st =
     (case st of (fs0, calls0) \<Rightarrow>
      (case getAllDiagnostics E be filename ([], fs0, calls0) of
         Inl e \<Rightarrow> Inl e
       | Inr (ds, (seen, fs, calls1)) \<Rightarrow>
           (let diags = ds @ getCompilerOptionsDiagnostics be;
                calls2 = calls1 @ [GetCompilerOptionsDiagnostics]
            in if length diags = 0 then
                 (case map_of fs filename of
                    None \<Rightarrow> Inl TypeError
                  | Some f \<Rightarrow>
                      (let output = getEmitOutput be (tsname f);
                           calls3 = calls2 @ [GetEmitOutput filename]
                       in if emitOutputStatus output \<noteq> Succeeded
                          then Inl (EmitError (emitOutputStatus output))
                          else
                            (case filter (\<lambda>file. name file = tsToJs E (tsname f))
                                    (outputFiles output) of
                               [] \<Rightarrow> Inl TypeError
                             | jsfile # _ \<Rightarrow>
                                 (case filter (\<lambda>file. name file = tsToJsMap E (tsname f))
                                         (outputFiles output) of
                                    [] \<Rightarrow> Inl TypeError
                                  | mapfile # _ \<Rightarrow>
                                      Inr (\<lparr>failure = False, errors = [],
                                            js = Some (replaceMapFileComment E (content jsfile)
                                                        (mapToComment E (content mapfile))),
                                            map_text = Some (content mapfile)\<rparr>,
                                           fs, calls3)))))
               else Inr (\<lparr>failure = True, errors = diags, js = None, map_text = None\<rparr>,
                         fs, calls2))))"

text \<open>Vocabulary for the properties of the diagnostics walk.\<close>

definition declDeps :: "env \<Rightarrow> files \<Rightarrow> string \<Rightarrow> string list" where
  "declDeps E fs v =
     (case map_of fs v of
        None \<Rightarrow> []
      | Some f \<Rightarrow>
          (case deps f of None \<Rightarrow> [] | Some ds \<Rightarrow> filter (isTypescriptDeclaration E) ds))"

definition declReach :: "env \<Rightarrow> files \<Rightarrow> string \<Rightarrow> string set" where
  "declReach E fs u = {v. (u, v) \<in> {(a, b). b \<in> set (declDeps E fs a)}\<^sup>*}"

definition unitLoaded :: "files \<Rightarrow> string \<Rightarrow> bool" where
  "unitLoaded fs v = (case map_of fs v of None \<Rightarrow> False | Some f \<Rightarrow> deps f \<noteq> None)"

text \<open>The diagnostics of one unit: the memoised list, else what the service answers.\<close>

definition unitDiagnostics :: "backend \<Rightarrow> files \<Rightarrow> string \<Rightarrow> diagnostic list" where
  "unitDiagnostics be fs v =
     (case map_of fs v of
        None \<Rightarrow> []
      | Some f \<Rightarrow>
          (case diagnostics f of
             Some d \<Rightarrow> d
           | None \<Rightarrow> getSemanticDiagnostics be (tsname f) @
                      getSyntacticDiagnostics be (tsname f)))"

text \<open>
  \<open>memoised be fs V fs'\<close>: \<open>fs'\<close> is \<open>fs\<close> with the diagnostics of the units in \<open>V\<close>
  memoised, and nothing else changed.
\<close>

definition memoised :: "backend \<Rightarrow> files \<Rightarrow> string set \<Rightarrow> files \<Rightarrow> bool" where
  "memoised be fs V fs' =
     (\<forall>v. map_of fs' v =
        (if v \<in> V
         then map_option (\<lambda>f. f\<lparr>diagnostics := Some (unitDiagnostics be fs v)\<rparr>) (map_of fs v)
         else map_of fs v))"

definition cached :: "files \<Rightarrow> string \<Rightarrow> bool" where
  "cached fs v = (case map_of fs v of None \<Rightarrow> False | Some f \<Rightarrow> diagnostics f \<noteq> None)"

text \<open>The service calls that compute the diagnostics of the units of \<open>V\<close> not yet memoised.\<close>

definition diagnosticCalls :: "files \<Rightarrow> string set \<Rightarrow> backendCall set" where
  "diagnosticCalls fs V =
     {c. \<exists>v \<in> V. \<not> cached fs v \<and> (c = GetSemanticDiagnostics v \<or> c = GetSyntacticDiagnostics v)}"

abbreviation (input) filesOf :: "walk \<Rightarrow> files" where
  "filesOf w \<equiv> fst (snd w)"

abbreviation (input) callsOf :: "walk \<Rightarrow> backendCall list" where
  "callsOf w \<equiv> snd (snd w)"

section \<open>An example session\<close>

text \<open>
  The scenario of the specification: \<open>a.ts\<close> references the ambient declaration
  \<open>lib.d.ts\<close> and imports \<open>./b.ts\<close>, and \<open>b.ts\<close> imports \<open>./a.ts\<close>.  The environment
  is one possible set of collaborators; the theorems below hold for every environment,
  this one serves to evaluate them.
\<close>

definition endsWith :: "string \<Rightarrow> string \<Rightarrow> bool" where
  "endsWith suffix s = (drop (length s - length suffix) s = suffix)"

definition exampleEnv :: env where
  "exampleEnv =
     \<lparr>isAmbient = (\<lambda>k. take 1 k \<noteq> ''.'' \<and> take 1 k \<noteq> ''/''),
      isTypescript = endsWith ''.ts'',
      isTypescriptDeclaration = endsWith ''.d.ts'',
      tsToJs = (\<lambda>n. take (length n - 3) n @ ''.js''),
      tsToJsMap = (\<lambda>n. take (length n - 3) n @ ''.js.map''),
      normalizePath = (\<lambda>p. p),
      preProcessFile = (\<lambda>t.
        if t = ''A'' then ([''lib.d.ts''], [''./b'']) else
        if t = ''B'' then ([], [''./a'']) else ([], [])),
      fetch = (\<lambda>n.
        if n = ''a.ts'' then Inr ''A'' else
        if n = ''b.ts'' then Inr ''B'' else
        if n = ''lib.d.ts'' then Inr ''L'' else Inl (LoadError n)),
      resolve = (\<lambda>d parent.
        if d = ''./a'' then Inr ''a.ts'' else
        if d = ''./b'' then Inr ''b.ts'' else
        if d = ''lib.d.ts'' \<or> d = ''./lib.d.ts'' \<or> d = ''typescript/lib/lib.d.ts''
        then Inr ''lib.d.ts'' else Inl (LoadError d)),
      mapToComment = (\<lambda>m. ''//# sourceMappingURL=data:'' @ m),
      replaceMapFileComment = (\<lambda>j c. takeWhile (\<lambda>x. x \<noteq> CHR ''/'') j @ c)\<rparr>"

definition exampleFiles :: files where
  "exampleFiles =
     [(''a.ts'', \<lparr>tsname = ''/a.ts'', srcText = Some ''A'',
                 deps = Some [''lib.d.ts'', ''b.ts''], loadedId = 0, loaded = Fulfilled,
                 diagnostics = None\<rparr>),
      (''lib.d.ts'', \<lparr>tsname = ''/lib.d.ts'', srcText = Some ''L'',
                 deps = Some [], loadedId = 1, loaded = Fulfilled, diagnostics = None\<rparr>),
      (''b.ts'', \<lparr>tsname = ''/b.ts'', srcText = Some ''B'',
                 deps = Some [''a.ts''], loadedId = 2, loaded = Fulfilled,
                 diagnostics = None\<rparr>)]"

definition exampleOutput :: "nat \<Rightarrow> emitOutput" where
  "exampleOutput status =
     \<lparr>emitOutputStatus = status,
      outputFiles = [\<lparr>name = ''/a.js'', content = ''var a;//# sourceMappingURL=a.js.map''\<rparr>,
                     \<lparr>name = ''/a.js.map'', content = ''{}''\<rparr>]\<rparr>"

text \<open>A service without diagnostics whose emit succeeds, one whose emit fails, and one
  that reports an error in \<open>lib.d.ts\<close>.\<close>

definition cleanBackend :: backend where
  "cleanBackend =
     \<lparr>getSemanticDiagnostics = (\<lambda>n. []), getSyntacticDiagnostics = (\<lambda>n. []),
      getCompilerOptionsDiagnostics = [], getEmitOutput = (\<lambda>n. exampleOutput 0)\<rparr>"


definition libErrorBackend :: backend where
  "libErrorBackend =
     \<lparr>getSemanticDiagnostics = (\<lambda>n. if n = ''/lib.d.ts'' then [''TS2300''] else []),
      getSyntacticDiagnostics = (\<lambda>n. []),
      getCompilerOptionsDiagnostics = [], getEmitOutput = (\<lambda>n. exampleOutput 0)\<rparr>"

text \<open>The files and the call log after the diagnostics of \<open>a.ts\<close> have been computed
  with \<open>libErrorBackend\<close>.\<close>

definition exampleFilesDiagnosed :: files where
  "exampleFilesDiagnosed =
     [(''a.ts'', \<lparr>tsname = ''/a.ts'', srcText = Some ''A'',
                 deps = Some [''lib.d.ts'', ''b.ts''], loadedId = 0, loaded = Fulfilled,
                 diagnostics = Some []\<rparr>),
      (''lib.d.ts'', \<lparr>tsname = ''/lib.d.ts'', srcText = Some ''L'',
                 deps = Some [], loadedId = 1, loaded = Fulfilled,
                 diagnostics = Some [''TS2300'']\<rparr>),
      (''b.ts'', \<lparr>tsname = ''/b.ts'', srcText = Some ''B'',
                 deps = Some [''a.ts''], loadedId = 2, loaded = Fulfilled,
                 diagnostics = None\<rparr>)]"

definition exampleDiagnosticCalls :: "backendCall list" where
  "exampleDiagnosticCalls =
     [GetSemanticDiagnostics ''lib.d.ts'', GetSyntacticDiagnostics ''lib.d.ts'',
      GetSemanticDiagnostics ''a.ts'', GetSyntacticDiagnostics ''a.ts'']"

section \<open>Incremental compiler: loading and the readiness wait\<close>

text \<open>
  The asynchronous part is a transition system.  A call of a method runs its synchronous
  part at once; each \<open>then\<close> callback is an event that can happen once the promise it
  waits for has settled.  \<open>fetchCalls\<close> logs the calls of \<open>fetch\<close>, \<open>addFileCalls\<close> the
  calls of the host's \<open>addFile\<close> with the unit that made them.
\<close>

record compiler =
  files :: files
  nextPromise :: nat
  fetchCalls :: "string list"
  addFileCalls :: "(string \<times> string \<times> string) list"

definition emptyCompiler :: compiler where
  "emptyCompiler = \<lparr>files = [], nextPromise = 0, fetchCalls = [], addFileCalls = []\<rparr>"

text \<open>
  \<open>load(filename)\<close>, synchronous part: the entry is created and the fetch started only
  when there is no entry; the promise returned is the one stored in the entry.
\<close>

definition load :: "env \<Rightarrow> string \<Rightarrow> compiler \<Rightarrow> nat \<times> compiler" where
  "load E filename c =
     (case map_of (files c) filename of
        Some f \<Rightarrow> (loadedId f, c)
      | None \<Rightarrow>
          (nextPromise c,
           c\<lparr>files := files c @
                  [(filename,
                    \<lparr>tsname = normalizePath E (''/'' @ filename), srcText = None,
                     deps = None, loadedId = nextPromise c, loaded = Pending,
                     diagnostics = None\<rparr>)],
              nextPromise := Suc (nextPromise c),
              fetchCalls := fetchCalls c @ [filename]\<rparr>))"

definition updateFile :: "string \<Rightarrow> (fileEntry \<Rightarrow> fileEntry) \<Rightarrow> compiler \<Rightarrow> compiler" where
  "updateFile filename g c = c\<lparr>files := AList.map_entry filename g (files c)\<rparr>"

text \<open>\<open>Promise.all\<close> over the resolved names: rejected when one of them is.\<close>

fun resolveAll :: "env \<Rightarrow> string \<Rightarrow> string list \<Rightarrow> error + string list" where
  "resolveAll E filename [] = Inr []"
| "resolveAll E filename (dep # rest) =
     (case resolve E dep (Some filename) of
        Inl e \<Rightarrow> Inl e
      | Inr res \<Rightarrow>
          (case resolveAll E filename rest of
             Inl e \<Rightarrow> Inl e
           | Inr filelist \<Rightarrow> Inr (res # filelist)))"

text \<open>The \<open>forEach\<close> that builds \<open>depsMap\<close> from the TypeScript files among the names.\<close>

fun buildDepsMap ::
  "env \<Rightarrow> (string \<times> string) list \<Rightarrow> (string \<times> string) list \<Rightarrow> (string \<times> string) list" where
  "buildDepsMap E [] depsMap = depsMap"
| "buildDepsMap E ((dep, res) # rest) depsMap =
     buildDepsMap E rest (if isTypescript E res then AList.update dep res depsMap else depsMap)"

definition getDependencies :: "env \<Rightarrow> string \<Rightarrow> string \<Rightarrow> error + (string \<times> string) list" where
  "getDependencies E filename txt =
     (case preProcessFile E txt of (referencedFiles, importedFiles) \<Rightarrow>
        (let ds = referencedFiles @ importedFiles
         in case resolveAll E filename ds of
              Inl e \<Rightarrow> Inl e
            | Inr filelist \<Rightarrow> Inr (buildDepsMap E (zip ds filelist) [])))"

text \<open>
  First callback of \<open>load\<close>: the fetch has settled.  A failed fetch rejects \<open>loaded\<close>;
  otherwise the text is stored and the dependencies are being resolved.
\<close>

definition fetched :: "env \<Rightarrow> string \<Rightarrow> compiler \<Rightarrow> compiler option" where
  "fetched E filename c =
     (case map_of (files c) filename of
        None \<Rightarrow> None
      | Some f \<Rightarrow>
          if loaded f = Pending \<and> srcText f = None then
            (case fetch E filename of
               Inl e \<Rightarrow> Some (updateFile filename (\<lambda>f. f\<lparr>loaded := Rejected e\<rparr>) c)
             | Inr t \<Rightarrow> Some (updateFile filename (\<lambda>f. f\<lparr>srcText := Some t\<rparr>) c))
          else None)"

text \<open>
  Second callback of \<open>load\<close>: the dependencies are resolved.  The resolved names become
  \<open>deps\<close>, each is loaded, the ambient specifiers are replaced and the text is given to
  the host; then \<open>loaded\<close> is fulfilled.
\<close>

definition resolved :: "env \<Rightarrow> string \<Rightarrow> compiler \<Rightarrow> compiler option" where
  "resolved E filename c =
     (case map_of (files c) filename of
        None \<Rightarrow> None
      | Some f \<Rightarrow>
          (case srcText f of
             None \<Rightarrow> None
           | Some t \<Rightarrow>
               if loaded f = Pending \<and> deps f = None then
                 (case getDependencies E filename t of
                    Inl e \<Rightarrow> Some (updateFile filename (\<lambda>f. f\<lparr>loaded := Rejected e\<rparr>) c)
                  | Inr depsMap \<Rightarrow>
                      (let ds = map snd depsMap;
                           c1 = updateFile filename (\<lambda>f. f\<lparr>deps := Some ds\<rparr>) c;
                           c2 = fold (\<lambda>res c. snd (load E res c)) ds c1
                       in case replaceAmbients E (files c2) t depsMap of
                            Inl e \<Rightarrow>
                              Some (updateFile filename (\<lambda>f. f\<lparr>loaded := Rejected e\<rparr>) c2)
                          | Inr txt \<Rightarrow>
                              Some ((updateFile filename (\<lambda>f. f\<lparr>loaded := Fulfilled\<rparr>) c2)
                                      \<lparr>addFileCalls := addFileCalls c2 @
                                         [(filename, tsname f, txt)]\<rparr>)))
               else None))"

text \<open>
  One top-level \<open>canEmit\<close> request: the shared array \<open>seen\<close>, the calls whose callback
  has not run yet (\<open>waiting\<close>), and the first rejection.  The promise of the top-level
  call is rejected by the first rejection and fulfilled when no callback is left.
\<close>

record request =
  seen :: "string list"
  waiting :: "string list"
  failed :: "error option"

definition emptyRequest :: request where
  "emptyRequest = \<lparr>seen = [], waiting = [], failed = None\<rparr>"

definition reject :: "error \<Rightarrow> request \<Rightarrow> request" where
  "reject e r = r\<lparr>failed := (case failed r of None \<Rightarrow> Some e | Some e0 \<Rightarrow> Some e0)\<rparr>"

definition status :: "request \<Rightarrow> promise" where
  "status r =
     (case failed r of
        Some e \<Rightarrow> Rejected e
      | None \<Rightarrow> if waiting r = [] then Fulfilled else Pending)"

text \<open>
  \<open>canEmit(filename, seen)\<close>, synchronous part: push, then wait for \<open>loaded\<close>; reading
  \<open>loaded\<close> of an absent entry throws.  \<open>canEmitAll\<close> is the \<open>deps.map\<close> of the callback,
  which a throw leaves.
\<close>

fun canEmitAll :: "files \<Rightarrow> string list \<Rightarrow> request \<Rightarrow> request" where
  "canEmitAll fs [] r = r"
| "canEmitAll fs (filename # rest) r =
     (case map_of fs filename of
        None \<Rightarrow> reject TypeError (r\<lparr>seen := seen r @ [filename]\<rparr>)
      | Some f \<Rightarrow>
          canEmitAll fs rest
            (r\<lparr>seen := seen r @ [filename], waiting := waiting r @ [filename]\<rparr>))"

definition canEmit :: "files \<Rightarrow> string \<Rightarrow> request" where
  "canEmit fs filename = canEmitAll fs [filename] emptyRequest"

text \<open>The callback of \<open>canEmit\<close> for \<open>filename\<close>, once its \<open>loaded\<close> has settled.\<close>

definition canEmitLoaded :: "files \<Rightarrow> string \<Rightarrow> request \<Rightarrow> request option" where
  "canEmitLoaded fs filename r =
     (if filename \<in> set (waiting r) then
        (case map_of fs filename of
           None \<Rightarrow> None
         | Some f \<Rightarrow>
             (case loaded f of
                Pending \<Rightarrow> None
              | Rejected e \<Rightarrow> Some (reject e (r\<lparr>waiting := remove1 filename (waiting r)\<rparr>))
              | Fulfilled \<Rightarrow>
                  (case deps f of
                     None \<Rightarrow>
                       Some (reject TypeError (r\<lparr>waiting := remove1 filename (waiting r)\<rparr>))
                   | Some ds \<Rightarrow>
                       Some (canEmitAll fs (filter (\<lambda>dep. dep \<notin> set (seen r)) ds)
                               (r\<lparr>waiting := remove1 filename (waiting r)\<rparr>)))))
      else None)"

datatype event = Fetched string | Resolved string | CanEmitLoaded string

fun step :: "env \<Rightarrow> event \<Rightarrow> compiler \<times> request \<Rightarrow> (compiler \<times> request) option" where
  "step E (Fetched filename) (c, r) = map_option (\<lambda>c'. (c', r)) (fetched E filename c)"
| "step E (Resolved filename) (c, r) = map_option (\<lambda>c'. (c', r)) (resolved E filename c)"
| "step E (CanEmitLoaded filename) (c, r) =
     map_option (\<lambda>r'. (c, r')) (canEmitLoaded (files c) filename r)"

fun run :: "env \<Rightarrow> event list \<Rightarrow> compiler \<times> request \<Rightarrow> (compiler \<times> request) option" where
  "run E [] s = Some s"
| "run E (ev # evs) s = (case step E ev s of None \<Rightarrow> None | Some s' \<Rightarrow> run E evs s')"

text \<open>Vocabulary for the properties of loading and of the readiness wait.\<close>

definition fileKeys :: "compiler \<Rightarrow> string set" where
  "fileKeys c = fst ` set (files c)"

definition registrations :: "compiler \<Rightarrow> string \<Rightarrow> nat" where
  "registrations c v = length (filter (\<lambda>call. fst call = v) (addFileCalls c))"

definition fetches :: "compiler \<Rightarrow> string \<Rightarrow> nat" where
  "fetches c v = length (filter (\<lambda>nm. nm = v) (fetchCalls c))"

definition unitFulfilled :: "compiler \<Rightarrow> string \<Rightarrow> bool" where
  "unitFulfilled c v =
     (case map_of (files c) v of None \<Rightarrow> False | Some f \<Rightarrow> loaded f = Fulfilled)"






text \<open>The entry \<open>load\<close> creates, and the \<open>forEach\<close> that loads the dependencies.\<close>

definition freshEntry :: "env \<Rightarrow> string \<Rightarrow> nat \<Rightarrow> fileEntry" where
  "freshEntry E nm i =
     \<lparr>tsname = normalizePath E (''/'' @ nm), srcText = None, deps = None, loadedId = i,
      loaded = Pending, diagnostics = None\<rparr>"

abbreviation (input) loadAll :: "env \<Rightarrow> string list \<Rightarrow> compiler \<Rightarrow> compiler" where
  "loadAll E ds c \<equiv> fold (\<lambda>res c. snd (load E res c)) ds c"





definition exampleStart :: compiler where
  "exampleStart = snd (load exampleEnv ''a.ts'' emptyCompiler)"

definition exampleEvents :: "event list" where
  "exampleEvents =
     [Fetched ''a.ts'', Resolved ''a.ts'', CanEmitLoaded ''a.ts'', Fetched ''b.ts'',
      Fetched ''lib.d.ts'', Resolved ''lib.d.ts'', Resolved ''b.ts'', CanEmitLoaded ''b.ts'',
      CanEmitLoaded ''lib.d.ts'']"

definition exampleLoaded :: compiler where
  "exampleLoaded =
     \<lparr>files = exampleFiles, nextPromise = 3,
      fetchCalls = [''a.ts'', ''lib.d.ts'', ''b.ts''],
      addFileCalls = [(''a.ts'', ''/a.ts'', ''A''), (''lib.d.ts'', ''/lib.d.ts'', ''L''),
                      (''b.ts'', ''/b.ts'', ''B'')]\<rparr>"

definition exampleReady :: request where
  "exampleReady = \<lparr>seen = [''a.ts'', ''lib.d.ts'', ''b.ts''], waiting = [], failed = None\<rparr>"

section \<open>Type checker\<close>

text \<open>
  The whole-program check strategy.  A file object of \<open>_files\<close> is identified by its
  \<open>sourceName\<close> (there is one object per name); \<open>fileId\<close> is the identity of the
  object.  \<open>source\<close> is the \<open>Deferred\<close>: \<open>None\<close> while pending, never rejected.
  \<open>fetching\<close> says that the callback of the checker's own fetch is still to come.
\<close>

record tcFile =
  sourceName :: string
  fileId :: nat
  source :: "string option"
  fetching :: bool
  isDefaultLib :: bool
  tcLoaded :: promise
  tcDeps :: "string list option"
  checked :: bool

text \<open>
  What the checker gets from outside besides the environment: the host's options and
  default library name, the name of the HTML placeholder module, and
  \<open>ts.createProgram\<close>, given by the diagnostics of the program it builds.
\<close>

record program =
  getSyntacticDiagnosticsOf :: "string \<Rightarrow> diagnostic list"
  getSemanticDiagnosticsOf :: "string \<Rightarrow> diagnostic list"
  getGlobalDiagnostics :: "diagnostic list"

record checkerEnv =
  resolveAmbientRefs :: bool
  getDefaultLibFileName :: string
  htmlModule :: string
  createProgram :: "string list \<Rightarrow> program"

datatype programCall =
    CreateProgram "string list"
  | ProgramSyntactic string
  | ProgramSemantic string

record checker =
  tcFiles :: "(string \<times> tcFile) list"
  nextFileId :: nat
  defaultLibFileName :: "string option"
  defaultLibResolved :: "promise option"
  tcFetchCalls :: "string list"
  hostFiles :: "(string \<times> string) list"
  resolutionMaps :: "(string \<times> (string \<times> string) list) list"
  requests :: "(string \<times> request) list"
  errorsOf :: "(string \<times> (error + diagnostic list)) list"
  programCalls :: "programCall list"

definition emptyChecker :: checker where
  "emptyChecker =
     \<lparr>tcFiles = [], nextFileId = 0, defaultLibFileName = None, defaultLibResolved = None,
      tcFetchCalls = [], hostFiles = [], resolutionMaps = [], requests = [], errorsOf = [],
      programCalls = []\<rparr>"

text \<open>
  \<open>registerFile(sourceName)\<close>, synchronous part.  The file is flagged as the default
  library when its name is the \<open>defaultLibFileName\<close> known at this moment; a declaration
  file is fetched by the checker.
\<close>

definition registerFile :: "env \<Rightarrow> string \<Rightarrow> checker \<Rightarrow> nat \<times> checker" where
  "registerFile E nm tc =
     (case map_of (tcFiles tc) nm of
        Some f \<Rightarrow> (fileId f, tc)
      | None \<Rightarrow>
          (nextFileId tc,
           tc\<lparr>tcFiles := tcFiles tc @
                  [(nm,
                    \<lparr>sourceName = nm, fileId = nextFileId tc, source = None,
                     fetching = isTypescriptDeclaration E nm,
                     isDefaultLib = (defaultLibFileName tc = Some nm),
                     tcLoaded = Pending, tcDeps = None, checked = False\<rparr>)],
               nextFileId := Suc (nextFileId tc),
               tcFetchCalls := tcFetchCalls tc @
                  (if isTypescriptDeclaration E nm then [nm] else [])\<rparr>))"

definition updateTcFile :: "string \<Rightarrow> (tcFile \<Rightarrow> tcFile) \<Rightarrow> checker \<Rightarrow> checker" where
  "updateTcFile nm g tc = tc\<lparr>tcFiles := AList.map_entry nm g (tcFiles tc)\<rparr>"

text \<open>\<open>registerSource\<close>: throws for an unregistered name; resolving a resolved
  \<open>Deferred\<close> again changes nothing.\<close>

definition registerSource :: "string \<Rightarrow> string \<Rightarrow> checker \<Rightarrow> error + checker" where
  "registerSource nm src tc =
     (case map_of (tcFiles tc) nm of
        None \<Rightarrow> Inl TypeError
      | Some f \<Rightarrow>
          Inr (updateTcFile nm
                 (\<lambda>f. f\<lparr>source := (case source f of None \<Rightarrow> Some src | Some s \<Rightarrow> Some s)\<rparr>) tc))"

text \<open>\<open>check(sourceName, source)\<close>; the promise it returns is \<open>errors\<close> of the file.\<close>

definition check :: "env \<Rightarrow> string \<Rightarrow> string \<Rightarrow> checker \<Rightarrow> error + checker" where
  "check E nm src tc = registerSource nm src (snd (registerFile E nm tc))"

text \<open>
  The callback of the checker's fetch of a declaration file.  There is no rejection
  handler: when the fetch fails, nothing happens.
\<close>

definition tcFetched :: "env \<Rightarrow> string \<Rightarrow> checker \<Rightarrow> checker option" where
  "tcFetched E nm tc =
     (case map_of (tcFiles tc) nm of
        None \<Rightarrow> None
      | Some f \<Rightarrow>
          if fetching f then
            (let tc1 = updateTcFile nm (\<lambda>f. f\<lparr>fetching := False\<rparr>) tc
             in case fetch E nm of
                  Inl e \<Rightarrow> Some tc1
                | Inr src \<Rightarrow>
                    (case registerSource nm src
                            (tc1\<lparr>hostFiles := hostFiles tc1 @ [(nm, src)]\<rparr>) of
                       Inl e \<Rightarrow> Some tc1
                     | Inr tc2 \<Rightarrow> Some tc2))
          else None)"

text \<open>\<open>resolveDependencies\<close>: references first, then imports.\<close>

definition referenceName :: "env \<Rightarrow> checkerEnv \<Rightarrow> string \<Rightarrow> string" where
  "referenceName E X ref =
     (if (isAmbient E ref \<and> \<not> resolveAmbientRefs X) \<or> CHR ''/'' \<notin> set ref
      then ''./'' @ ref else ref)"

fun tcResolveAll :: "env \<Rightarrow> string \<Rightarrow> string list \<Rightarrow> error + string list" where
  "tcResolveAll E nm [] = Inr []"
| "tcResolveAll E nm (ref # rest) =
     (case resolve E ref (Some nm) of
        Inl e \<Rightarrow> Inl e
      | Inr res \<Rightarrow>
          (case tcResolveAll E nm rest of
             Inl e \<Rightarrow> Inl e
           | Inr rs \<Rightarrow> Inr (res # rs)))"

definition resolveDependencies ::
  "env \<Rightarrow> checkerEnv \<Rightarrow> string \<Rightarrow> string \<Rightarrow> error + (string \<times> string) list" where
  "resolveDependencies E X nm src =
     (case preProcessFile E src of (referencedFiles, importedFiles) \<Rightarrow>
        (let refs = map (referenceName E X) referencedFiles @ importedFiles
         in case tcResolveAll E nm refs of
              Inl e \<Rightarrow> Inl e
            | Inr rs \<Rightarrow>
                Inr (fold (\<lambda>(ref, res) result. AList.update ref res result) (zip refs rs) [])))"

text \<open>
  Second callback of \<open>loaded\<close>: the resolution map goes to the host, the TypeScript
  files among the resolved names are registered and become \<open>deps\<close>, and
  \<open>resolveDefaultLibFileName\<close> is called, which starts resolving the default library
  the first time.
\<close>

definition tcDepsResolved :: "env \<Rightarrow> checkerEnv \<Rightarrow> string \<Rightarrow> checker \<Rightarrow> checker option" where
  "tcDepsResolved E X nm tc =
     (case map_of (tcFiles tc) nm of
        None \<Rightarrow> None
      | Some f \<Rightarrow>
          (case source f of
             None \<Rightarrow> None
           | Some src \<Rightarrow>
               if tcLoaded f = Pending \<and> tcDeps f = None then
                 (case resolveDependencies E X nm src of
                    Inl e \<Rightarrow> Some (updateTcFile nm (\<lambda>f. f\<lparr>tcLoaded := Rejected e\<rparr>) tc)
                  | Inr depsMap \<Rightarrow>
                      (let ds = filter (isTypescript E) (map snd depsMap);
                           tc1 = tc\<lparr>resolutionMaps := resolutionMaps tc @ [(nm, depsMap)]\<rparr>;
                           tc2 = fold (\<lambda>res tc. snd (registerFile E res tc)) ds tc1;
                           tc3 = updateTcFile nm (\<lambda>f. f\<lparr>tcDeps := Some ds\<rparr>) tc2
                       in Some (tc3\<lparr>defaultLibResolved :=
                                   (case defaultLibResolved tc3 of
                                      None \<Rightarrow> Some Pending
                                    | Some p \<Rightarrow> Some p)\<rparr>)))
               else None))"

text \<open>
  The callback inside \<open>resolveDefaultLibFileName\<close>: the resolved name becomes
  \<open>defaultLibFileName\<close> and is registered.
\<close>

definition tcDefaultLibResolved :: "env \<Rightarrow> checkerEnv \<Rightarrow> checker \<Rightarrow> checker option" where
  "tcDefaultLibResolved E X tc =
     (if defaultLibResolved tc = Some Pending then
        (case resolve E (getDefaultLibFileName X) None of
           Inl e \<Rightarrow> Some (tc\<lparr>defaultLibResolved := Some (Rejected e)\<rparr>)
         | Inr res \<Rightarrow>
             Some ((snd (registerFile E res (tc\<lparr>defaultLibFileName := Some res\<rparr>)))
                     \<lparr>defaultLibResolved := Some Fulfilled\<rparr>))
      else None)"

text \<open>Third callback of \<open>loaded\<close>: the default library file is pushed to \<open>deps\<close>.\<close>

definition tcLoadedDone :: "string \<Rightarrow> checker \<Rightarrow> checker option" where
  "tcLoadedDone nm tc =
     (case map_of (tcFiles tc) nm of
        None \<Rightarrow> None
      | Some f \<Rightarrow>
          (case tcDeps f of
             None \<Rightarrow> None
           | Some ds \<Rightarrow>
               if tcLoaded f = Pending then
                 (case defaultLibResolved tc of
                    Some Fulfilled \<Rightarrow>
                      (case defaultLibFileName tc of
                         None \<Rightarrow> None
                       | Some lib \<Rightarrow>
                           Some (updateTcFile nm
                                   (\<lambda>f. f\<lparr>tcDeps := Some (ds @ [lib]), tcLoaded := Fulfilled\<rparr>) tc))
                  | Some (Rejected e) \<Rightarrow>
                      Some (updateTcFile nm (\<lambda>f. f\<lparr>tcLoaded := Rejected e\<rparr>) tc)
                  | _ \<Rightarrow> None)
               else None))"

text \<open>
  \<open>canEmit(file, seen)\<close> of the checker, synchronous part: a file already in \<open>seen\<close> is
  not awaited (the call returns \<open>undefined\<close>); \<open>tcCanEmitAll\<close> is the \<open>deps.map\<close> of the
  callback.
\<close>

fun tcCanEmitAll :: "string list \<Rightarrow> request \<Rightarrow> request" where
  "tcCanEmitAll [] r = r"
| "tcCanEmitAll (nm # rest) r =
     tcCanEmitAll rest
       (if nm \<in> set (seen r) then r
        else r\<lparr>seen := seen r @ [nm], waiting := waiting r @ [nm]\<rparr>)"

definition tcCanEmitLoaded ::
  "(string \<times> tcFile) list \<Rightarrow> string \<Rightarrow> request \<Rightarrow> request option" where
  "tcCanEmitLoaded fs nm r =
     (if nm \<in> set (waiting r) then
        (case map_of fs nm of
           None \<Rightarrow> None
         | Some f \<Rightarrow>
             (case tcLoaded f of
                Pending \<Rightarrow> None
              | Rejected e \<Rightarrow> Some (reject e (r\<lparr>waiting := remove1 nm (waiting r)\<rparr>))
              | Fulfilled \<Rightarrow>
                  (case tcDeps f of
                     None \<Rightarrow> Some (reject TypeError (r\<lparr>waiting := remove1 nm (waiting r)\<rparr>))
                   | Some ds \<Rightarrow>
                       Some (tcCanEmitAll ds (r\<lparr>waiting := remove1 nm (waiting r)\<rparr>)))))
      else None)"

text \<open>
  \<open>accumulateDeps(file, result)\<close>: the array \<open>result\<close> is shared by the recursive calls;
  \<open>accumulateAll\<close> is the \<open>forEach\<close> over \<open>file.deps\<close>.
\<close>

function accumulateDeps ::
    "(string \<times> tcFile) list \<Rightarrow> string \<Rightarrow> string list \<Rightarrow> error + string list"
  and accumulateAll ::
    "(string \<times> tcFile) list \<Rightarrow> string list \<Rightarrow> string list \<Rightarrow> error + string list" where
  "accumulateDeps fs nm result =
     (if nm \<in> set result then Inr result
      else
        (case map_of fs nm of
           None \<Rightarrow> Inl TypeError
         | Some f \<Rightarrow>
             (case tcDeps f of
                None \<Rightarrow> Inl TypeError
              | Some ds \<Rightarrow> accumulateAll fs ds (result @ [nm]))))"
| "accumulateAll fs [] result = Inr result"
| "accumulateAll fs (dep # rest) result =
     (case accumulateDeps fs dep result of
        Inl e \<Rightarrow> Inl e
      | Inr result' \<Rightarrow> accumulateAll fs rest result')"
  by pat_completeness auto

lemma accumulate_grows_dom:
  "accumulateDeps_accumulateAll_dom (Inl (fs, nm, result)) \<Longrightarrow>
     accumulateDeps fs nm result = Inr result' \<Longrightarrow> set result \<subseteq> set result'"
  "accumulateDeps_accumulateAll_dom (Inr (fs, ds, result)) \<Longrightarrow>
     accumulateAll fs ds result = Inr result' \<Longrightarrow> set result \<subseteq> set result'"
proof (induction fs nm result and fs ds result arbitrary: result' and result'
    rule: accumulateDeps_accumulateAll.pinduct)
  case (1 fs nm result)
  show ?case
  proof (cases "nm \<in> set result")
    case True
    with 1(1,3) show ?thesis by (simp add: accumulateDeps.psimps)
  next
    case False
    with 1(1,3) obtain f ds where
      f: "map_of fs nm = Some f" "tcDeps f = Some ds" and
      a: "accumulateAll fs ds (result @ [nm]) = Inr result'"
      by (auto simp: accumulateDeps.psimps split: option.splits)
    from 1(2)[OF False f a] show ?thesis by auto
  qed
next
  case (2 fs result)
  then show ?case by (simp add: accumulateAll.psimps)
next
  case (3 fs dep rest result)
  from 3(1,4) obtain r1 where
    g: "accumulateDeps fs dep result = Inr r1" and
    d: "accumulateAll fs rest r1 = Inr result'"
    by (auto simp: accumulateAll.psimps split: sum.splits)
  from 3(2)[OF g] 3(3)[OF g d] show ?case by auto
qed

termination accumulateDeps
proof (relation "inv_image (less_than <*lex*> less_than)
    (\<lambda>x. case x of
       Inl (fs, nm, result) \<Rightarrow> (card (fst ` set fs - set result), 0)
     | Inr (fs, ds, result) \<Rightarrow> (card (fst ` set fs - set result), Suc (length ds)))",
    goal_cases)
  case 1
  then show ?case by (intro wf_inv_image wf_lex_prod wf_less_than)
next
  case (2 fs nm result f ds)
  from 2(2) have "(nm, f) \<in> set fs" by (rule map_of_SomeD)
  then have "nm \<in> fst ` set fs" by force
  with 2(1) have "fst ` set fs - set (result @ [nm]) \<subset> fst ` set fs - set result"
    by auto
  then have "card (fst ` set fs - set (result @ [nm])) < card (fst ` set fs - set result)"
    by (intro psubset_card_mono) simp_all
  then show ?case by simp
next
  case (3 fs dep rest result)
  then show ?case by simp
next
  case (4 fs dep rest result result')
  from accumulate_grows_dom(1)[OF 4(2) 4(1)]
  have "fst ` set fs - set result' \<subseteq> fst ` set fs - set result" by auto
  then have "card (fst ` set fs - set result') \<le> card (fst ` set fs - set result)"
    by (intro card_mono) simp_all
  then have "card (fst ` set fs - set result') < card (fst ` set fs - set result) \<or>
      card (fst ` set fs - set result') = card (fst ` set fs - set result)" by linarith
  then show ?case by simp
qed

text \<open>
  The \<open>reduce\<close> of \<open>getAllDiagnostics\<close>: a file is passed to the program's diagnostics
  when it is neither flagged as the default library nor checked, and is then checked.
\<close>

definition diagnoseDep ::
  "program \<Rightarrow> string \<Rightarrow> diagnostic list \<times> checker \<Rightarrow> diagnostic list \<times> checker" where
  "diagnoseDep p dep st =
     (case st of (diags, tc) \<Rightarrow>
        (case map_of (tcFiles tc) dep of
           None \<Rightarrow> (diags, tc)
         | Some f \<Rightarrow>
             if \<not> isDefaultLib f \<and> \<not> checked f then
               (diags @ getSyntacticDiagnosticsOf p dep @ getSemanticDiagnosticsOf p dep,
                (updateTcFile dep (\<lambda>f. f\<lparr>checked := True\<rparr>) tc)
                  \<lparr>programCalls := programCalls tc @ [ProgramSyntactic dep, ProgramSemantic dep]\<rparr>)
             else (diags, tc)))"

text \<open>
  \<open>getAllDiagnostics(file)\<close> of the checker.  The placeholder for HTML imports is pushed
  behind the flattened dependencies; it is part of the program and, being
  \<open>checked\<close>, is skipped by the \<open>reduce\<close>.
\<close>

definition tcGetAllDiagnostics ::
  "checkerEnv \<Rightarrow> string \<Rightarrow> checker \<Rightarrow> error + (diagnostic list \<times> checker)" where
  "tcGetAllDiagnostics X nm tc =
     (case accumulateDeps (tcFiles tc) nm [] of
        Inl e \<Rightarrow> Inl e
      | Inr ds \<Rightarrow>
          (let names = ds @ [htmlModule X];
               p = createProgram X names;
               tc1 = tc\<lparr>programCalls := programCalls tc @ [CreateProgram names]\<rparr>
           in Inr (fold (diagnoseDep p) ds (getGlobalDiagnostics p, tc1))))"

text \<open>
  The \<open>errors\<close> promise of a file: when \<open>loaded\<close> is fulfilled \<open>canEmit(file)\<close> starts a
  request of its own; when that is fulfilled \<open>getAllDiagnostics(file)\<close> runs.
\<close>

definition tcCanEmitStart :: "string \<Rightarrow> checker \<Rightarrow> checker option" where
  "tcCanEmitStart nm tc =
     (case map_of (tcFiles tc) nm of
        None \<Rightarrow> None
      | Some f \<Rightarrow>
          if map_of (requests tc) nm = None \<and> map_of (errorsOf tc) nm = None then
            (case tcLoaded f of
               Pending \<Rightarrow> None
             | Rejected e \<Rightarrow> Some (tc\<lparr>errorsOf := errorsOf tc @ [(nm, Inl e)]\<rparr>)
             | Fulfilled \<Rightarrow>
                 Some (tc\<lparr>requests := requests tc @ [(nm, tcCanEmitAll [nm] emptyRequest)]\<rparr>))
          else None)"

definition tcDiagnose :: "checkerEnv \<Rightarrow> string \<Rightarrow> checker \<Rightarrow> checker option" where
  "tcDiagnose X nm tc =
     (case map_of (requests tc) nm of
        None \<Rightarrow> None
      | Some r \<Rightarrow>
          if map_of (errorsOf tc) nm = None then
            (case status r of
               Pending \<Rightarrow> None
             | Rejected e \<Rightarrow> Some (tc\<lparr>errorsOf := errorsOf tc @ [(nm, Inl e)]\<rparr>)
             | Fulfilled \<Rightarrow>
                 (case tcGetAllDiagnostics X nm tc of
                    Inl e \<Rightarrow> Some (tc\<lparr>errorsOf := errorsOf tc @ [(nm, Inl e)]\<rparr>)
                  | Inr (diags, tc') \<Rightarrow>
                      Some (tc'\<lparr>errorsOf := errorsOf tc' @ [(nm, Inr diags)]\<rparr>)))
          else None)"

datatype tcEvent =
    TcFetched string
  | TcDepsResolved string
  | TcDefaultLibResolved
  | TcLoadedDone string
  | TcCanEmitStart string
  | TcCanEmitLoaded string string
  | TcDiagnose string

fun tcStep :: "env \<Rightarrow> checkerEnv \<Rightarrow> tcEvent \<Rightarrow> checker \<Rightarrow> checker option" where
  "tcStep E X (TcFetched nm) tc = tcFetched E nm tc"
| "tcStep E X (TcDepsResolved nm) tc = tcDepsResolved E X nm tc"
| "tcStep E X TcDefaultLibResolved tc = tcDefaultLibResolved E X tc"
| "tcStep E X (TcLoadedDone nm) tc = tcLoadedDone nm tc"
| "tcStep E X (TcCanEmitStart nm) tc = tcCanEmitStart nm tc"
| "tcStep E X (TcCanEmitLoaded root nm) tc =
     (case map_of (requests tc) root of
        None \<Rightarrow> None
      | Some r \<Rightarrow>
          map_option (\<lambda>r'. tc\<lparr>requests := AList.update root r' (requests tc)\<rparr>)
            (tcCanEmitLoaded (tcFiles tc) nm r))"
| "tcStep E X (TcDiagnose nm) tc = tcDiagnose X nm tc"

fun tcRun :: "env \<Rightarrow> checkerEnv \<Rightarrow> tcEvent list \<Rightarrow> checker \<Rightarrow> checker option" where
  "tcRun E X [] tc = Some tc"
| "tcRun E X (ev # evs) tc =
     (case tcStep E X ev tc of None \<Rightarrow> None | Some tc' \<Rightarrow> tcRun E X evs tc')"

definition tcFetches :: "checker \<Rightarrow> string \<Rightarrow> nat" where
  "tcFetches tc v = length (filter (\<lambda>nm. nm = v) (tcFetchCalls tc))"

text \<open>\<open>keepsFile x tc tc'\<close>: a file object registered for \<open>x\<close> in \<open>tc\<close> is still the one
  registered in \<open>tc'\<close>, and \<open>x\<close> has not been fetched again.\<close>

definition keepsFile :: "string \<Rightarrow> checker \<Rightarrow> checker \<Rightarrow> bool" where
  "keepsFile x tc tc' =
     (case map_of (tcFiles tc) x of
        None \<Rightarrow> True
      | Some f \<Rightarrow>
          (case map_of (tcFiles tc') x of
             None \<Rightarrow> False
           | Some f' \<Rightarrow> fileId f' = fileId f \<and> tcFetches tc' x = tcFetches tc x))"





section \<open>Sessions of the type checker\<close>









text \<open>
  The part of a file object that loading works on: \<open>source\<close>, \<open>fetching\<close>, \<open>loaded\<close> and
  \<open>deps\<close>.
\<close>

type_synonym tcView = "string option \<times> bool \<times> promise \<times> string list option"

definition tcView :: "checker \<Rightarrow> string \<Rightarrow> tcView option" where
  "tcView tc z =
     map_option (\<lambda>f. (source f, fetching f, tcLoaded f, tcDeps f)) (map_of (tcFiles tc) z)"





text \<open>
  \<open>viewStable v v'\<close>: from \<open>v\<close> to \<open>v'\<close> no file is lost, a loaded file stays as it is and
  \<open>deps\<close> only grow.
\<close>

definition viewStable :: "(string \<Rightarrow> tcView option) \<Rightarrow> (string \<Rightarrow> tcView option) \<Rightarrow> bool" where
  "viewStable v v' =
     (\<forall>z s fl l d. v z = Some (s, fl, l, d) \<longrightarrow>
        (\<exists>s' fl' l' d'. v' z = Some (s', fl', l', d') \<and>
           (l = Fulfilled \<longrightarrow> l' = Fulfilled \<and> d' = d) \<and>
           (\<forall>ds. d = Some ds \<longrightarrow> (\<exists>ds'. d' = Some ds' \<and> set ds \<subseteq> set ds'))))"





section \<open>Example sessions of the type checker\<close>

definition exampleChecker :: checkerEnv where
  "exampleChecker =
     \<lparr>resolveAmbientRefs = True,
      getDefaultLibFileName = ''typescript/lib/lib.d.ts'',
      htmlModule = ''__html_module__'',
      createProgram = (\<lambda>names.
        \<lparr>getSyntacticDiagnosticsOf = (\<lambda>n. []),
         getSemanticDiagnosticsOf = (\<lambda>n. [''error in '' @ n]),
         getGlobalDiagnostics = []\<rparr>)\<rparr>"

text \<open>
  \<open>a.ts\<close> references the declaration file \<open>missing.d.ts\<close>, which cannot be fetched.
\<close>

definition brokenEnv :: env where
  "brokenEnv =
     exampleEnv
       \<lparr>preProcessFile := (\<lambda>t. if t = ''A'' then ([''missing.d.ts''], []) else ([], [])),
        fetch := (\<lambda>n.
          if n = ''a.ts'' then Inr ''A'' else
          if n = ''lib.d.ts'' then Inr ''L'' else Inl (LoadError n)),
        resolve := (\<lambda>d parent.
          if d = ''./missing.d.ts'' \<or> d = ''missing.d.ts'' then Inr ''missing.d.ts'' else
          if d = ''typescript/lib/lib.d.ts'' then Inr ''lib.d.ts'' else Inl (LoadError d))\<rparr>"

definition brokenEvents :: "tcEvent list" where
  "brokenEvents =
     [TcDepsResolved ''a.ts'', TcFetched ''missing.d.ts'', TcDefaultLibResolved,
      TcFetched ''lib.d.ts'', TcLoadedDone ''a.ts'', TcDepsResolved ''lib.d.ts'',
      TcLoadedDone ''lib.d.ts'', TcCanEmitStart ''a.ts'', TcCanEmitLoaded ''a.ts'' ''a.ts'',
      TcCanEmitStart ''lib.d.ts'', TcCanEmitLoaded ''a.ts'' ''lib.d.ts'',
      TcCanEmitLoaded ''lib.d.ts'' ''lib.d.ts'', TcDiagnose ''lib.d.ts'']"

text \<open>
  \<open>a.ts\<close> references the default library by the name the host gives for it.
\<close>

definition libReferenceEnv :: env where
  "libReferenceEnv =
     exampleEnv
       \<lparr>preProcessFile := (\<lambda>t. if t = ''A'' then ([''typescript/lib/lib.d.ts''], []) else ([], [])),
        resolve := (\<lambda>d parent.
          if d = ''typescript/lib/lib.d.ts'' then Inr ''lib.d.ts'' else Inl (LoadError d))\<rparr>"

text \<open>
  The callbacks of that session in the order the promises give them.  The callbacks of
  one promise run in the order of their registration: on \<open>loaded\<close> of \<open>lib.d.ts\<close> the
  callback of the file's own \<open>errors\<close> chain was registered by \<open>registerFile\<close>, before
  the one of the wait of \<open>a.ts\<close>; and the \<open>errors\<close> chain of \<open>lib.d.ts\<close>, which waits
  for nothing else, reaches \<open>getAllDiagnostics\<close> before the one of \<open>a.ts\<close>.
\<close>

definition libReferenceEvents :: "tcEvent list" where
  "libReferenceEvents =
     [TcDepsResolved ''a.ts'', TcDefaultLibResolved, TcLoadedDone ''a.ts'',
      TcCanEmitStart ''a.ts'', TcCanEmitLoaded ''a.ts'' ''a.ts'', TcFetched ''lib.d.ts'',
      TcDepsResolved ''lib.d.ts'', TcLoadedDone ''lib.d.ts'', TcCanEmitStart ''lib.d.ts'',
      TcCanEmitLoaded ''a.ts'' ''lib.d.ts'', TcCanEmitLoaded ''lib.d.ts'' ''lib.d.ts'',
      TcDiagnose ''lib.d.ts'', TcDiagnose ''a.ts'']"

text \<open>The state after \<open>check(''a.ts'', ''A'')\<close> on a new checker, and the states the two
  sessions end in.\<close>

definition checkerStart :: checker where
  "checkerStart =
     emptyChecker
       \<lparr>tcFiles :=
          [(''a.ts'',
            \<lparr>sourceName = ''a.ts'', fileId = 0, source = Some ''A'', fetching = False,
             isDefaultLib = False, tcLoaded = Pending, tcDeps = None, checked = False\<rparr>)],
        nextFileId := 1\<rparr>"

definition brokenStuck :: checker where
  "brokenStuck =
     \<lparr>tcFiles =
        [(''a.ts'',
          \<lparr>sourceName = ''a.ts'', fileId = 0, source = Some ''A'', fetching = False,
           isDefaultLib = False, tcLoaded = Fulfilled,
           tcDeps = Some [''missing.d.ts'', ''lib.d.ts''], checked = False\<rparr>),
         (''missing.d.ts'',
          \<lparr>sourceName = ''missing.d.ts'', fileId = 1, source = None, fetching = False,
           isDefaultLib = False, tcLoaded = Pending, tcDeps = None, checked = False\<rparr>),
         (''lib.d.ts'',
          \<lparr>sourceName = ''lib.d.ts'', fileId = 2, source = Some ''L'', fetching = False,
           isDefaultLib = True, tcLoaded = Fulfilled, tcDeps = Some [''lib.d.ts''],
           checked = False\<rparr>)],
      nextFileId = 3, defaultLibFileName = Some ''lib.d.ts'',
      defaultLibResolved = Some Fulfilled,
      tcFetchCalls = [''missing.d.ts'', ''lib.d.ts''],
      hostFiles = [(''lib.d.ts'', ''L'')],
      resolutionMaps =
        [(''a.ts'', [(''./missing.d.ts'', ''missing.d.ts'')]), (''lib.d.ts'', [])],
      requests =
        [(''a.ts'',
          \<lparr>seen = [''a.ts'', ''missing.d.ts'', ''lib.d.ts''], waiting = [''missing.d.ts''],
           failed = None\<rparr>),
         (''lib.d.ts'', \<lparr>seen = [''lib.d.ts''], waiting = [], failed = None\<rparr>)],
      errorsOf = [(''lib.d.ts'', Inr [])],
      programCalls = [CreateProgram [''lib.d.ts'', ''__html_module__'']]\<rparr>"

definition libReferenceChecked :: checker where
  "libReferenceChecked =
     \<lparr>tcFiles =
        [(''a.ts'',
          \<lparr>sourceName = ''a.ts'', fileId = 0, source = Some ''A'', fetching = False,
           isDefaultLib = False, tcLoaded = Fulfilled,
           tcDeps = Some [''lib.d.ts'', ''lib.d.ts''], checked = True\<rparr>),
         (''lib.d.ts'',
          \<lparr>sourceName = ''lib.d.ts'', fileId = 1, source = Some ''L'', fetching = False,
           isDefaultLib = False, tcLoaded = Fulfilled, tcDeps = Some [''lib.d.ts''],
           checked = True\<rparr>)],
      nextFileId = 2, defaultLibFileName = Some ''lib.d.ts'',
      defaultLibResolved = Some Fulfilled, tcFetchCalls = [''lib.d.ts''],
      hostFiles = [(''lib.d.ts'', ''L'')],
      resolutionMaps =
        [(''a.ts'', [(''typescript/lib/lib.d.ts'', ''lib.d.ts'')]), (''lib.d.ts'', [])],
      requests =
        [(''a.ts'', \<lparr>seen = [''a.ts'', ''lib.d.ts''], waiting = [], failed = None\<rparr>),
         (''lib.d.ts'', \<lparr>seen = [''lib.d.ts''], waiting = [], failed = None\<rparr>)],
      errorsOf =
        [(''lib.d.ts'', Inr [''error in lib.d.ts'']), (''a.ts'', Inr [''error in a.ts''])],
      programCalls =
        [CreateProgram [''lib.d.ts'', ''__html_module__''],
         ProgramSyntactic ''lib.d.ts'', ProgramSemantic ''lib.d.ts'',
         CreateProgram [''a.ts'', ''lib.d.ts'', ''__html_module__''],
         ProgramSyntactic ''a.ts'', ProgramSemantic ''a.ts'']\<rparr>"

text \<open>The incremental compiler in the session with the missing declaration file.\<close>

definition brokenCompilerEvents :: "event list" where
  "brokenCompilerEvents =
     [Fetched ''a.ts'', Resolved ''a.ts'', CanEmitLoaded ''a.ts'', Fetched ''missing.d.ts'',
      CanEmitLoaded ''missing.d.ts'']"




section \<open>Properties of the ambient rewriting\<close>

lemma collectAmbients_no_ambient:
  "\<forall>key \<in> fst ` set depsMap. \<not> isAmbient E key \<Longrightarrow>
   collectAmbients E fs depsMap rm = Inr rm"
  by (induction depsMap arbitrary: rm) auto

text \<open>A lower-case ambient specifier is replaced wherever it occurs, in any case.\<close>

lemma replaceAmbients_lowercase_specifier:
  "replaceAmbients exampleEnv exampleFiles ''import lib, LIB'' [(''lib'', ''lib.d.ts'')]
   = Inr ''import /lib.d.ts, /lib.d.ts''"
  by code_simp

text \<open>
  C9.  When no key of the resolution map is classified as ambient, \<open>replaceAmbients\<close>
  returns the text it was given: no replace map is built and \<open>mapReplace\<close> is not
  run.  (A JavaScript string is a primitive value, so the same text is the same value.)
\<close>

theorem replaceAmbients_no_ambient:
  assumes "\<forall>key \<in> fst ` set depsMap. \<not> isAmbient E key"
  shows "replaceAmbients E fs txt depsMap = Inr txt"
  using assms by (simp add: replaceAmbients_def collectAmbients_no_ambient)

theorem replaceAmbients_no_ambient_witness:
  "\<not> isAmbient exampleEnv ''./b'' \<and>
   replaceAmbients exampleEnv exampleFiles ''B'' [(''./b'', ''b.ts'')] = Inr ''B''"
proof -
  have h: "\<forall>key \<in> fst ` set [(''./b'', ''b.ts'')]. \<not> isAmbient exampleEnv key"
    by (simp add: exampleEnv_def)
  from replaceAmbients_no_ambient[OF h, of exampleFiles "''B''"] h show ?thesis by simp
qed

text \<open>
  C4.  The ambient rewrite does not replace every occurrence of an ambient specifier by
  the resolved unit's \<open>tsname\<close>: the replace map is keyed by the specifier as written,
  the callback looks up the lower-cased match, so a specifier with an upper-case letter is
  replaced by the text \<open>undefined\<close>.
\<close>

theorem replaceAmbients_uppercase_specifier:
  "replaceAmbients exampleEnv exampleFiles ''import Lib'' [(''Lib'', ''lib.d.ts'')]
   = Inr ''import undefined''"
  by code_simp

section \<open>Properties of the diagnostics walk\<close>

declare getAllDiagnostics.simps [simp del]

lemma getAllDiagnostics_seen:
  "filename \<in> set sn \<Longrightarrow>
   getAllDiagnostics E be filename (sn, fs, calls) = Inr ([], (sn, fs, calls))"
  by (simp add: getAllDiagnostics.simps)

lemma getAllDiagnostics_InrE:
  assumes "getAllDiagnostics E be x (sn, fs, calls) = Inr (r, w')" and "x \<notin> set sn"
  obtains f ds depDiags sn' st' d st'' where
    "map_of fs x = Some f" "deps f = Some ds"
    "depDiagnostics E be (filter (isTypescriptDeclaration E) ds) [] (sn @ [x], fs, calls)
       = Inr (depDiags, (sn', st'))"
    "getFileDiagnostics be x st' = Inr (d, st'')"
    "r = d @ depDiags" "w' = (sn', st'')"
  using assms
  by (auto simp: getAllDiagnostics.simps split: option.splits sum.splits)

lemma depDiagnostics_InrE:
  assumes "depDiagnostics E be (dep # rest) result w = Inr (r, w')"
  obtains r1 w1 where
    "getAllDiagnostics E be dep w = Inr (r1, w1)"
    "depDiagnostics E be rest (result @ r1) w1 = Inr (r, w')"
  using assms by (auto split: sum.splits)

lemma getFileDiagnostics_InrE:
  assumes "getFileDiagnostics be x (fs, calls) = Inr (d, st'')"
  obtains f where "map_of fs x = Some f" "d = unitDiagnostics be fs x"
    "st'' = (if diagnostics f = None
             then (AList.update x (f\<lparr>diagnostics := Some d\<rparr>) fs,
                   calls @ [GetSemanticDiagnostics x, GetSyntacticDiagnostics x])
             else (fs, calls))"
  using assms
  by (auto simp: getFileDiagnostics_def unitDiagnostics_def Let_def split: option.splits)

text \<open>shape of the visited list\<close>

lemma walk_seen:
  "getAllDiagnostics E be x w = Inr (r, w') \<Longrightarrow>
     \<exists>vs. fst w' = fst w @ vs \<and> distinct vs \<and> set vs \<inter> set (fst w) = {} \<and> x \<in> set (fst w')"
  "depDiagnostics E be ds result w = Inr (r, w') \<Longrightarrow>
     \<exists>vs. fst w' = fst w @ vs \<and> distinct vs \<and> set vs \<inter> set (fst w) = {} \<and> set ds \<subseteq> set (fst w')"
proof (induction E be x w and E be ds result w arbitrary: r w' and r w'
    rule: getAllDiagnostics_depDiagnostics.induct)
  case (1 E be filename sn fs calls)
  show ?case
  proof (cases "filename \<in> set sn")
    case True
    with 1(2) show ?thesis by (auto simp: getAllDiagnostics_seen)
  next
    case False
    from 1(2) False obtain f ds depDiags sn' st' d st'' where
      f: "map_of fs filename = Some f" "deps f = Some ds" and
      dd: "depDiagnostics E be (filter (isTypescriptDeclaration E) ds) []
             (sn @ [filename], fs, calls) = Inr (depDiags, (sn', st'))" and
      w': "w' = (sn', st'')"
      by (elim getAllDiagnostics_InrE)
    from 1(1)[OF False f dd] obtain vs where
      vs: "sn' = (sn @ [filename]) @ vs" "distinct vs" "set vs \<inter> set (sn @ [filename]) = {}"
      by auto
    with False w' have "fst w' = fst (sn, fs, calls) @ (filename # vs) \<and> distinct (filename # vs) \<and>
      set (filename # vs) \<inter> set (fst (sn, fs, calls)) = {} \<and> filename \<in> set (fst w')"
      by auto
    then show ?thesis by blast
  qed
next
  case (2 E be result w)
  then show ?case by simp
next
  case (3 E be dep rest result w)
  from 3(3) obtain r1 w1 where
    g: "getAllDiagnostics E be dep w = Inr (r1, w1)" and
    d: "depDiagnostics E be rest (result @ r1) w1 = Inr (r, w')"
    by (elim depDiagnostics_InrE)
  from 3(1)[OF g] obtain vs1 where
    v1: "fst w1 = fst w @ vs1" "distinct vs1" "set vs1 \<inter> set (fst w) = {}" "dep \<in> set (fst w1)"
    by auto
  from 3(2)[OF g refl d] obtain vs2 where
    v2: "fst w' = fst w1 @ vs2" "distinct vs2" "set vs2 \<inter> set (fst w1) = {}" "set rest \<subseteq> set (fst w')"
    by auto
  from v1 v2 have "fst w' = fst w @ (vs1 @ vs2) \<and> distinct (vs1 @ vs2) \<and>
     set (vs1 @ vs2) \<inter> set (fst w) = {} \<and> set (dep # rest) \<subseteq> set (fst w')"
    by auto
  then show ?case by blast
qed


lemma memoised_refl: "memoised be fs {} fs"
  by (simp add: memoised_def)

lemma memoised_unitDiagnostics:
  "memoised be fs V fs' \<Longrightarrow> unitDiagnostics be fs' v = unitDiagnostics be fs v"
  by (cases "map_of fs v") (auto simp: memoised_def unitDiagnostics_def)

lemma memoised_declDeps:
  "memoised be fs V fs' \<Longrightarrow> declDeps E fs' v = declDeps E fs v"
  by (cases "map_of fs v") (auto simp: memoised_def declDeps_def)

lemma memoised_trans:
  assumes "memoised be fs V1 fs1" and "memoised be fs1 V2 fs2"
  shows "memoised be fs (V1 \<union> V2) fs2"
proof -
  have u: "\<And>v. unitDiagnostics be fs1 v = unitDiagnostics be fs v"
    using assms(1) by (rule memoised_unitDiagnostics)
  show ?thesis
    unfolding memoised_def
  proof
    fix v
    show "map_of fs2 v =
        (if v \<in> V1 \<union> V2
         then map_option (\<lambda>f. f\<lparr>diagnostics := Some (unitDiagnostics be fs v)\<rparr>) (map_of fs v)
         else map_of fs v)"
      using assms u[of v]
      by (cases "map_of fs v") (auto simp: memoised_def)
  qed
qed

lemma getFileDiagnostics_memoised:
  assumes "getFileDiagnostics be x (fs, calls) = Inr (d, (fs', calls'))"
  shows "memoised be fs {x} fs'"
proof -
  from assms obtain f where f: "map_of fs x = Some f" and d: "d = unitDiagnostics be fs x"
    and st: "(fs', calls') = (if diagnostics f = None
             then (AList.update x (f\<lparr>diagnostics := Some d\<rparr>) fs,
                   calls @ [GetSemanticDiagnostics x, GetSyntacticDiagnostics x])
             else (fs, calls))"
    by (elim getFileDiagnostics_InrE)
  show ?thesis
  proof (cases "diagnostics f")
    case None
    with st have "fs' = AList.update x (f\<lparr>diagnostics := Some d\<rparr>) fs" by simp
    with f d show ?thesis by (auto simp: memoised_def update_conv')
  next
    case (Some d')
    with st have "fs' = fs" by simp
    moreover from Some f have "unitDiagnostics be fs x = d'" by (simp add: unitDiagnostics_def)
    ultimately show ?thesis using f Some by (auto simp: memoised_def)
  qed
qed


lemma walk_memoised:
  "getAllDiagnostics E be x w = Inr (r, w') \<Longrightarrow>
     memoised be (filesOf w) (set (fst w') - set (fst w)) (filesOf w')"
  "depDiagnostics E be ds result w = Inr (r, w') \<Longrightarrow>
     memoised be (filesOf w) (set (fst w') - set (fst w)) (filesOf w')"
proof (induction E be x w and E be ds result w arbitrary: r w' and r w'
    rule: getAllDiagnostics_depDiagnostics.induct)
  case (1 E be filename sn fs calls)
  show ?case
  proof (cases "filename \<in> set sn")
    case True
    with 1(2) show ?thesis by (auto simp: getAllDiagnostics_seen memoised_refl)
  next
    case False
    from 1(2) False obtain f ds depDiags sn' st' d st'' where
      f: "map_of fs filename = Some f" "deps f = Some ds" and
      dd: "depDiagnostics E be (filter (isTypescriptDeclaration E) ds) []
             (sn @ [filename], fs, calls) = Inr (depDiags, (sn', st'))" and
      fd: "getFileDiagnostics be filename st' = Inr (d, st'')" and
      w': "w' = (sn', st'')"
      by (elim getAllDiagnostics_InrE)
    from walk_seen(2)[OF dd] obtain vs where vs: "sn' = sn @ [filename] @ vs" by auto
    from 1(1)[OF False f dd]
    have m1: "memoised be fs (set sn' - set (sn @ [filename])) (fst st')" by simp
    from fd have m2: "memoised be (fst st') {filename} (fst st'')"
      by (cases st'; cases st'') (auto dest: getFileDiagnostics_memoised)
    from vs False have "set sn' - set (sn @ [filename]) \<union> {filename} = set sn' - set sn"
      by auto
    with memoised_trans[OF m1 m2] w' show ?thesis by simp
  qed
next
  case (2 E be result w)
  then show ?case by (simp add: memoised_refl)
next
  case (3 E be dep rest result w)
  from 3(3) obtain r1 w1 where
    g: "getAllDiagnostics E be dep w = Inr (r1, w1)" and
    d: "depDiagnostics E be rest (result @ r1) w1 = Inr (r, w')"
    by (elim depDiagnostics_InrE)
  from walk_seen(1)[OF g] obtain vs1 where v1: "fst w1 = fst w @ vs1" by auto
  from walk_seen(2)[OF d] obtain vs2 where v2: "fst w' = fst w1 @ vs2" by auto
  from v1 v2 have "(set (fst w1) - set (fst w)) \<union> (set (fst w') - set (fst w1))
      = set (fst w') - set (fst w)" by auto
  with memoised_trans[OF 3(1)[OF g] 3(2)[OF g refl d]] show ?case by simp
qed

lemma walk_result:
  "getAllDiagnostics E be x w = Inr (r, w') \<Longrightarrow>
     r = concat (map (unitDiagnostics be (filesOf w)) (drop (length (fst w)) (fst w')))"
  "depDiagnostics E be ds result w = Inr (r, w') \<Longrightarrow>
     r = result @ concat (map (unitDiagnostics be (filesOf w)) (drop (length (fst w)) (fst w')))"
proof (induction E be x w and E be ds result w arbitrary: r w' and r w'
    rule: getAllDiagnostics_depDiagnostics.induct)
  case (1 E be filename sn fs calls)
  show ?case
  proof (cases "filename \<in> set sn")
    case True
    with 1(2) show ?thesis by (auto simp: getAllDiagnostics_seen)
  next
    case False
    from 1(2) False obtain f ds depDiags sn' st' d st'' where
      f: "map_of fs filename = Some f" "deps f = Some ds" and
      dd: "depDiagnostics E be (filter (isTypescriptDeclaration E) ds) []
             (sn @ [filename], fs, calls) = Inr (depDiags, (sn', st'))" and
      fd: "getFileDiagnostics be filename st' = Inr (d, st'')" and
      r: "r = d @ depDiags" and w': "w' = (sn', st'')"
      by (elim getAllDiagnostics_InrE)
    from walk_seen(2)[OF dd] obtain vs where
      vs: "sn' = sn @ [filename] @ vs" "set vs \<inter> set (sn @ [filename]) = {}" by auto
    from 1(1)[OF False f dd] vs
    have dr: "depDiags = concat (map (unitDiagnostics be fs) vs)" by simp
    from walk_memoised(2)[OF dd] have "memoised be fs (set sn' - set (sn @ [filename])) (fst st')"
      by simp
    then have "unitDiagnostics be (fst st') filename = unitDiagnostics be fs filename"
      by (rule memoised_unitDiagnostics)
    moreover from fd have "d = unitDiagnostics be (fst st') filename"
      by (cases st') (auto elim: getFileDiagnostics_InrE)
    ultimately have "d = unitDiagnostics be fs filename" by simp
    with dr r vs w' show ?thesis by simp
  qed
next
  case (2 E be result w)
  then show ?case by simp
next
  case (3 E be dep rest result w)
  from 3(3) obtain r1 w1 where
    g: "getAllDiagnostics E be dep w = Inr (r1, w1)" and
    d: "depDiagnostics E be rest (result @ r1) w1 = Inr (r, w')"
    by (elim depDiagnostics_InrE)
  from walk_seen(1)[OF g] obtain vs1 where v1: "fst w1 = fst w @ vs1" by auto
  from walk_seen(2)[OF d] obtain vs2 where v2: "fst w' = fst w1 @ vs2" by auto
  have u: "unitDiagnostics be (filesOf w1) = unitDiagnostics be (filesOf w)"
    using walk_memoised(1)[OF g] by (auto dest: memoised_unitDiagnostics)
  from 3(1)[OF g] v1 have "r1 = concat (map (unitDiagnostics be (filesOf w)) vs1)" by simp
  moreover from 3(2)[OF g refl d] v2 u
  have "r = (result @ r1) @ concat (map (unitDiagnostics be (filesOf w)) vs2)" by simp
  ultimately show ?case using v1 v2 by simp
qed


lemma memoised_declReach:
  "memoised be fs V fs' \<Longrightarrow> declReach E fs' v = declReach E fs v"
  by (simp add: declReach_def memoised_declDeps)

lemma memoised_unitLoaded:
  "memoised be fs V fs' \<Longrightarrow> unitLoaded fs' v = unitLoaded fs v"
  by (cases "map_of fs v") (auto simp: memoised_def unitLoaded_def)

lemma memoised_cached_other:
  "memoised be fs V fs' \<Longrightarrow> v \<notin> V \<Longrightarrow> cached fs' v = cached fs v"
  by (simp add: memoised_def cached_def)

lemma memoised_cached_in:
  "memoised be fs V fs' \<Longrightarrow> v \<in> V \<Longrightarrow> map_of fs v \<noteq> None \<Longrightarrow> cached fs' v"
  by (auto simp: memoised_def cached_def)

lemma declReach_refl: "x \<in> declReach E fs x"
  by (simp add: declReach_def)

lemma declReach_step:
  "d \<in> set (declDeps E fs x) \<Longrightarrow> declReach E fs d \<subseteq> declReach E fs x"
  by (auto simp: declReach_def intro: converse_rtrancl_into_rtrancl)

lemma declReach_closed:
  assumes "x \<in> S" and "\<forall>v \<in> S. set (declDeps E fs v) \<subseteq> S"
  shows "declReach E fs x \<subseteq> S"
proof
  fix v assume "v \<in> declReach E fs x"
  then have "(x, v) \<in> {(a, b). b \<in> set (declDeps E fs a)}\<^sup>*" by (simp add: declReach_def)
  then show "v \<in> S"
    using assms by (induction rule: rtrancl_induct) auto
qed

lemma walk_closed:
  "getAllDiagnostics E be x w = Inr (r, w') \<Longrightarrow>
     \<forall>v \<in> set (fst w') - set (fst w). set (declDeps E (filesOf w) v) \<subseteq> set (fst w')"
  "depDiagnostics E be ds result w = Inr (r, w') \<Longrightarrow>
     \<forall>v \<in> set (fst w') - set (fst w). set (declDeps E (filesOf w) v) \<subseteq> set (fst w')"
proof (induction E be x w and E be ds result w arbitrary: r w' and r w'
    rule: getAllDiagnostics_depDiagnostics.induct)
  case (1 E be filename sn fs calls)
  show ?case
  proof (cases "filename \<in> set sn")
    case True
    with 1(2) show ?thesis by (auto simp: getAllDiagnostics_seen)
  next
    case False
    from 1(2) False obtain f ds depDiags sn' st' d st'' where
      f: "map_of fs filename = Some f" "deps f = Some ds" and
      dd: "depDiagnostics E be (filter (isTypescriptDeclaration E) ds) []
             (sn @ [filename], fs, calls) = Inr (depDiags, (sn', st'))" and
      w': "w' = (sn', st'')"
      by (elim getAllDiagnostics_InrE)
    from walk_seen(2)[OF dd] have
      sub: "set (filter (isTypescriptDeclaration E) ds) \<subseteq> set sn'" by auto
    from f have dds: "declDeps E fs filename = filter (isTypescriptDeclaration E) ds"
      by (simp add: declDeps_def)
    from 1(1)[OF False f dd]
    have ih: "\<forall>v \<in> set sn' - set (sn @ [filename]). set (declDeps E fs v) \<subseteq> set sn'"
      by simp
    show ?thesis
    proof
      fix v assume v: "v \<in> set (fst w') - set (fst (sn, fs, calls))"
      show "set (declDeps E (filesOf (sn, fs, calls)) v) \<subseteq> set (fst w')"
      proof (cases "v = filename")
        case True
        with dds sub w' show ?thesis by simp
      next
        case False
        with v w' have "v \<in> set sn' - set (sn @ [filename])" by simp
        with ih w' show ?thesis by simp
      qed
    qed
  qed
next
  case (2 E be result w)
  then show ?case by simp
next
  case (3 E be dep rest result w)
  from 3(3) obtain r1 w1 where
    g: "getAllDiagnostics E be dep w = Inr (r1, w1)" and
    d: "depDiagnostics E be rest (result @ r1) w1 = Inr (r, w')"
    by (elim depDiagnostics_InrE)
  from walk_seen(1)[OF g] obtain vs1 where v1: "fst w1 = fst w @ vs1" by auto
  from walk_seen(2)[OF d] obtain vs2 where v2: "fst w' = fst w1 @ vs2" by auto
  have u: "\<And>v. declDeps E (filesOf w1) v = declDeps E (filesOf w) v"
    using walk_memoised(1)[OF g] by (rule memoised_declDeps)
  from 3(1)[OF g] 3(2)[OF g refl d] u v1 v2 show ?case by auto
qed

lemma walk_sound:
  "getAllDiagnostics E be x w = Inr (r, w') \<Longrightarrow>
     set (fst w') - set (fst w) \<subseteq> declReach E (filesOf w) x"
  "depDiagnostics E be ds result w = Inr (r, w') \<Longrightarrow>
     set (fst w') - set (fst w) \<subseteq> (\<Union>d \<in> set ds. declReach E (filesOf w) d)"
proof (induction E be x w and E be ds result w arbitrary: r w' and r w'
    rule: getAllDiagnostics_depDiagnostics.induct)
  case (1 E be filename sn fs calls)
  show ?case
  proof (cases "filename \<in> set sn")
    case True
    with 1(2) show ?thesis by (auto simp: getAllDiagnostics_seen)
  next
    case False
    from 1(2) False obtain f ds depDiags sn' st' d st'' where
      f: "map_of fs filename = Some f" "deps f = Some ds" and
      dd: "depDiagnostics E be (filter (isTypescriptDeclaration E) ds) []
             (sn @ [filename], fs, calls) = Inr (depDiags, (sn', st'))" and
      w': "w' = (sn', st'')"
      by (elim getAllDiagnostics_InrE)
    from f have dds: "declDeps E fs filename = filter (isTypescriptDeclaration E) ds"
      by (simp add: declDeps_def)
    from 1(1)[OF False f dd]
    have ih: "set sn' - set (sn @ [filename])
        \<subseteq> (\<Union>d \<in> set (filter (isTypescriptDeclaration E) ds). declReach E fs d)"
      by simp
    have "(\<Union>d \<in> set (filter (isTypescriptDeclaration E) ds). declReach E fs d)
        \<subseteq> declReach E fs filename"
      using dds declReach_step[of _ E fs filename] by auto
    with ih have "set sn' - set (sn @ [filename]) \<subseteq> declReach E fs filename" by blast
    with declReach_refl[of filename E fs] w' show ?thesis by auto
  qed
next
  case (2 E be result w)
  then show ?case by simp
next
  case (3 E be dep rest result w)
  from 3(3) obtain r1 w1 where
    g: "getAllDiagnostics E be dep w = Inr (r1, w1)" and
    d: "depDiagnostics E be rest (result @ r1) w1 = Inr (r, w')"
    by (elim depDiagnostics_InrE)
  have u: "\<And>v. declReach E (filesOf w1) v = declReach E (filesOf w) v"
    using walk_memoised(1)[OF g] by (rule memoised_declReach)
  from 3(1)[OF g] 3(2)[OF g refl d] u show ?case by auto
qed


lemma diagnosticCalls_Un:
  "diagnosticCalls fs (A \<union> B) = diagnosticCalls fs A \<union> diagnosticCalls fs B"
  by (auto simp: diagnosticCalls_def)

lemma diagnosticCalls_empty: "diagnosticCalls fs {} = {}"
  by (simp add: diagnosticCalls_def)

lemma diagnosticCalls_disjoint:
  "A \<inter> B = {} \<Longrightarrow> diagnosticCalls fs A \<inter> diagnosticCalls fs' B = {}"
  by (auto simp: diagnosticCalls_def)

lemma diagnosticCalls_cong:
  "(\<And>v. v \<in> V \<Longrightarrow> cached fs' v = cached fs v) \<Longrightarrow> diagnosticCalls fs' V = diagnosticCalls fs V"
  by (auto simp: diagnosticCalls_def)

lemma getFileDiagnostics_calls:
  assumes "getFileDiagnostics be x (fs, calls) = Inr (d, (fs', calls'))"
  shows "\<exists>cs. calls' = calls @ cs \<and> distinct cs \<and> set cs = diagnosticCalls fs {x}"
proof -
  from assms obtain f where f: "map_of fs x = Some f"
    and st: "(fs', calls') = (if diagnostics f = None
             then (AList.update x (f\<lparr>diagnostics := Some d\<rparr>) fs,
                   calls @ [GetSemanticDiagnostics x, GetSyntacticDiagnostics x])
             else (fs, calls))"
    by (elim getFileDiagnostics_InrE)
  show ?thesis
  proof (cases "diagnostics f")
    case None
    with st have "calls' = calls @ [GetSemanticDiagnostics x, GetSyntacticDiagnostics x]" by simp
    moreover from None f have "diagnosticCalls fs {x} = {GetSemanticDiagnostics x, GetSyntacticDiagnostics x}"
      by (auto simp: diagnosticCalls_def cached_def)
    ultimately show ?thesis by simp
  next
    case (Some d')
    with st have "calls' = calls @ []" by simp
    moreover from Some f have "diagnosticCalls fs {x} = {}"
      by (auto simp: diagnosticCalls_def cached_def)
    ultimately show ?thesis by (metis distinct.simps(1) empty_set)
  qed
qed

lemma walk_calls:
  "getAllDiagnostics E be x w = Inr (r, w') \<Longrightarrow>
     \<exists>cs. callsOf w' = callsOf w @ cs \<and> distinct cs \<and>
          set cs = diagnosticCalls (filesOf w) (set (fst w') - set (fst w))"
  "depDiagnostics E be ds result w = Inr (r, w') \<Longrightarrow>
     \<exists>cs. callsOf w' = callsOf w @ cs \<and> distinct cs \<and>
          set cs = diagnosticCalls (filesOf w) (set (fst w') - set (fst w))"
proof (induction E be x w and E be ds result w arbitrary: r w' and r w'
    rule: getAllDiagnostics_depDiagnostics.induct)
  case (1 E be filename sn fs calls)
  show ?case
  proof (cases "filename \<in> set sn")
    case True
    with 1(2) show ?thesis by (auto simp: getAllDiagnostics_seen diagnosticCalls_empty)
  next
    case False
    from 1(2) False obtain f ds depDiags sn' st' d st'' where
      f: "map_of fs filename = Some f" "deps f = Some ds" and
      dd: "depDiagnostics E be (filter (isTypescriptDeclaration E) ds) []
             (sn @ [filename], fs, calls) = Inr (depDiags, (sn', st'))" and
      fd: "getFileDiagnostics be filename st' = Inr (d, st'')" and
      w': "w' = (sn', st'')"
      by (elim getAllDiagnostics_InrE)
    obtain fs1 calls1 where st': "st' = (fs1, calls1)" by (cases st') auto
    obtain fs2 calls2 where st'': "st'' = (fs2, calls2)" by (cases st'') auto
    let ?V = "set sn' - set (sn @ [filename])"
    from walk_seen(2)[OF dd] obtain vs where vs: "sn' = sn @ [filename] @ vs" by auto
    from 1(1)[OF False f dd] st' obtain cs1 where
      c1: "calls1 = calls @ cs1" "distinct cs1" "set cs1 = diagnosticCalls fs ?V" by auto
    from walk_memoised(2)[OF dd] st' have m: "memoised be fs ?V fs1" by simp
    from getFileDiagnostics_calls[OF fd[unfolded st' st'']] obtain cs2 where
      c2: "calls2 = calls1 @ cs2" "distinct cs2" "set cs2 = diagnosticCalls fs1 {filename}" by auto
    have "cached fs1 filename = cached fs filename"
      using m by (rule memoised_cached_other) simp
    then have e: "diagnosticCalls fs1 {filename} = diagnosticCalls fs {filename}"
      by (intro diagnosticCalls_cong) simp
    have dj: "set cs1 \<inter> set cs2 = {}"
      unfolding c1 c2 e by (rule diagnosticCalls_disjoint) simp
    from vs False have V: "?V \<union> {filename} = set sn' - set sn" by auto
    have "set (cs1 @ cs2) = diagnosticCalls fs (set sn' - set sn)"
      using c1 c2 e V by (simp add: diagnosticCalls_Un[symmetric])
    moreover have "distinct (cs1 @ cs2)" using c1 c2 dj by simp
    moreover have "calls2 = calls @ (cs1 @ cs2)" using c1 c2 by simp
    ultimately show ?thesis using w' st'' by (intro exI[of _ "cs1 @ cs2"]) simp
  qed
next
  case (2 E be result w)
  then show ?case by (simp add: diagnosticCalls_empty)
next
  case (3 E be dep rest result w)
  from 3(3) obtain r1 w1 where
    g: "getAllDiagnostics E be dep w = Inr (r1, w1)" and
    d: "depDiagnostics E be rest (result @ r1) w1 = Inr (r, w')"
    by (elim depDiagnostics_InrE)
  from walk_seen(1)[OF g] obtain vs1 where v1: "fst w1 = fst w @ vs1" by auto
  from walk_seen(2)[OF d] obtain vs2 where
    v2: "fst w' = fst w1 @ vs2" "set vs2 \<inter> set (fst w1) = {}" by auto
  let ?V1 = "set (fst w1) - set (fst w)" and ?V2 = "set (fst w') - set (fst w1)"
  from 3(1)[OF g] obtain cs1 where
    c1: "callsOf w1 = callsOf w @ cs1" "distinct cs1" "set cs1 = diagnosticCalls (filesOf w) ?V1"
    by auto
  from 3(2)[OF g refl d] obtain cs2 where
    c2: "callsOf w' = callsOf w1 @ cs2" "distinct cs2" "set cs2 = diagnosticCalls (filesOf w1) ?V2"
    by auto
  have m: "memoised be (filesOf w) ?V1 (filesOf w1)" using walk_memoised(1)[OF g] .
  have e: "diagnosticCalls (filesOf w1) ?V2 = diagnosticCalls (filesOf w) ?V2"
  proof (rule diagnosticCalls_cong)
    fix v assume "v \<in> ?V2"
    then have "v \<notin> ?V1" by auto
    with m show "cached (filesOf w1) v = cached (filesOf w) v" by (rule memoised_cached_other)
  qed
  have dj: "set cs1 \<inter> set cs2 = {}"
    unfolding c1 c2 by (rule diagnosticCalls_disjoint) auto
  from v1 v2 have V: "?V1 \<union> ?V2 = set (fst w') - set (fst w)" by auto
  have "set (cs1 @ cs2) = diagnosticCalls (filesOf w) (set (fst w') - set (fst w))"
    using c1 c2 e V by (simp add: diagnosticCalls_Un[symmetric])
  moreover have "distinct (cs1 @ cs2)" using c1 c2 dj by simp
  moreover have "callsOf w' = callsOf w @ (cs1 @ cs2)" using c1 c2 by simp
  ultimately show ?case by blast
qed

lemma getFileDiagnostics_total:
  "map_of fs x \<noteq> None \<Longrightarrow> \<exists>d st. getFileDiagnostics be x (fs, calls) = Inr (d, st)"
  by (auto simp: getFileDiagnostics_def Let_def split: option.splits)

lemma walk_total:
  "\<forall>v \<in> declReach E (filesOf w) x. unitLoaded (filesOf w) v \<Longrightarrow>
     \<exists>r w'. getAllDiagnostics E be x w = Inr (r, w')"
  "\<forall>d \<in> set ds. \<forall>v \<in> declReach E (filesOf w) d. unitLoaded (filesOf w) v \<Longrightarrow>
     \<exists>r w'. depDiagnostics E be ds result w = Inr (r, w')"
proof (induction E be x w and E be ds result w
    rule: getAllDiagnostics_depDiagnostics.induct)
  case (1 E be filename sn fs calls)
  show ?case
  proof (cases "filename \<in> set sn")
    case True
    then show ?thesis by (intro exI) (rule getAllDiagnostics_seen)
  next
    case False
    from 1(2) declReach_refl[of filename E fs] have "unitLoaded fs filename" by auto
    then obtain f ds where f: "map_of fs filename = Some f" "deps f = Some ds"
      by (auto simp: unitLoaded_def split: option.splits)
    then have dds: "declDeps E fs filename = filter (isTypescriptDeclaration E) ds"
      by (simp add: declDeps_def)
    have "\<forall>d \<in> set (filter (isTypescriptDeclaration E) ds).
            \<forall>v \<in> declReach E fs d. unitLoaded fs v"
      using 1(2) dds declReach_step[of _ E fs filename] by auto
    with 1(1)[OF False f] obtain depDiags sn' st' where
      dd: "depDiagnostics E be (filter (isTypescriptDeclaration E) ds) []
             (sn @ [filename], fs, calls) = Inr (depDiags, (sn', st'))"
      by fastforce
    obtain fs1 calls1 where st': "st' = (fs1, calls1)" by (cases st') auto
    from walk_memoised(2)[OF dd] st' f have "map_of fs1 filename \<noteq> None"
      by (auto simp: memoised_def)
    from getFileDiagnostics_total[OF this] obtain d st'' where
      "getFileDiagnostics be filename (fs1, calls1) = Inr (d, st'')" by blast
    with False f dd st' have "getAllDiagnostics E be filename (sn, fs, calls)
        = Inr (d @ depDiags, (sn', st''))"
      by (simp add: getAllDiagnostics.simps)
    then show ?thesis by blast
  qed
next
  case (2 E be result w)
  show ?case by (intro exI) (rule depDiagnostics.simps)
next
  case (3 E be dep rest result w)
  from 3(3) have "\<forall>v \<in> declReach E (filesOf w) dep. unitLoaded (filesOf w) v" by simp
  from 3(1)[OF this] obtain r1 w1 where g: "getAllDiagnostics E be dep w = Inr (r1, w1)"
    by blast
  have m: "memoised be (filesOf w) (set (fst w1) - set (fst w)) (filesOf w1)"
    using walk_memoised(1)[OF g] .
  have "\<forall>d \<in> set rest. \<forall>v \<in> declReach E (filesOf w1) d. unitLoaded (filesOf w1) v"
    using 3(3) by (simp add: memoised_declReach[OF m] memoised_unitLoaded[OF m])
  from 3(2)[OF g refl this] obtain r w' where
    "depDiagnostics E be rest (result @ r1) w1 = Inr (r, w')" by blast
  with g have "depDiagnostics E be (dep # rest) result w = Inr (r, w')" by simp
  then show ?case by blast
qed

lemma walk_first:
  assumes "getAllDiagnostics E be x (sn, fs, calls) = Inr (r, w')" and "x \<notin> set sn"
  shows "\<exists>vs. fst w' = sn @ x # vs"
proof -
  from assms obtain f ds depDiags sn' st' d st'' where
    dd: "depDiagnostics E be (filter (isTypescriptDeclaration E) ds) [] (sn @ [x], fs, calls)
       = Inr (depDiags, (sn', st'))" and w': "w' = (sn', st'')"
    by (elim getAllDiagnostics_InrE)
  from walk_seen(2)[OF dd] w' show ?thesis by auto
qed

lemma walk_visited_loaded:
  "getAllDiagnostics E be x w = Inr (r, w') \<Longrightarrow>
     \<forall>v \<in> set (fst w') - set (fst w). unitLoaded (filesOf w) v"
  "depDiagnostics E be ds result w = Inr (r, w') \<Longrightarrow>
     \<forall>v \<in> set (fst w') - set (fst w). unitLoaded (filesOf w) v"
proof (induction E be x w and E be ds result w arbitrary: r w' and r w'
    rule: getAllDiagnostics_depDiagnostics.induct)
  case (1 E be filename sn fs calls)
  show ?case
  proof (cases "filename \<in> set sn")
    case True
    with 1(2) show ?thesis by (auto simp: getAllDiagnostics_seen)
  next
    case False
    from 1(2) False obtain f ds depDiags sn' st' d st'' where
      f: "map_of fs filename = Some f" "deps f = Some ds" and
      dd: "depDiagnostics E be (filter (isTypescriptDeclaration E) ds) []
             (sn @ [filename], fs, calls) = Inr (depDiags, (sn', st'))" and
      w': "w' = (sn', st'')"
      by (elim getAllDiagnostics_InrE)
    from f have "unitLoaded fs filename" by (simp add: unitLoaded_def)
    with 1(1)[OF False f dd] w' show ?thesis by auto
  qed
next
  case (2 E be result w)
  then show ?case by simp
next
  case (3 E be dep rest result w)
  from 3(3) obtain r1 w1 where
    g: "getAllDiagnostics E be dep w = Inr (r1, w1)" and
    d: "depDiagnostics E be rest (result @ r1) w1 = Inr (r, w')"
    by (elim depDiagnostics_InrE)
  have u: "\<And>v. unitLoaded (filesOf w1) v = unitLoaded (filesOf w) v"
    using walk_memoised(1)[OF g] by (rule memoised_unitLoaded)
  from 3(1)[OF g] 3(2)[OF g refl d] u show ?case by auto
qed

text \<open>replaying a walk on files in which its units are memoised\<close>

lemma getFileDiagnostics_cached:
  "map_of fs x = Some f \<Longrightarrow> diagnostics f = Some d \<Longrightarrow>
   getFileDiagnostics be x (fs, calls) = Inr (d, (fs, calls))"
  by (simp add: getFileDiagnostics_def)

lemma walk_replay:
  "getAllDiagnostics E be x w = Inr (r, w') \<Longrightarrow>
     (\<forall>v. map_option deps (map_of fs2 v) = map_option deps (map_of (filesOf w) v)) \<Longrightarrow>
     (\<forall>v \<in> set (fst w') - set (fst w).
        \<exists>f. map_of fs2 v = Some f \<and> diagnostics f = Some (unitDiagnostics be (filesOf w) v)) \<Longrightarrow>
     getAllDiagnostics E be2 x (fst w, fs2, c2) = Inr (r, (fst w', fs2, c2))"
  "depDiagnostics E be ds result w = Inr (r, w') \<Longrightarrow>
     (\<forall>v. map_option deps (map_of fs2 v) = map_option deps (map_of (filesOf w) v)) \<Longrightarrow>
     (\<forall>v \<in> set (fst w') - set (fst w).
        \<exists>f. map_of fs2 v = Some f \<and> diagnostics f = Some (unitDiagnostics be (filesOf w) v)) \<Longrightarrow>
     depDiagnostics E be2 ds result (fst w, fs2, c2) = Inr (r, (fst w', fs2, c2))"
proof (induction E be x w and E be ds result w arbitrary: r w' and r w'
    rule: getAllDiagnostics_depDiagnostics.induct)
  case (1 E be filename sn fs calls)
  show ?case
  proof (cases "filename \<in> set sn")
    case True
    with 1(2) show ?thesis by (auto simp: getAllDiagnostics_seen)
  next
    case False
    from 1(2) False obtain f ds depDiags sn' st' d st'' where
      f: "map_of fs filename = Some f" "deps f = Some ds" and
      dd: "depDiagnostics E be (filter (isTypescriptDeclaration E) ds) []
             (sn @ [filename], fs, calls) = Inr (depDiags, (sn', st'))" and
      fd: "getFileDiagnostics be filename st' = Inr (d, st'')" and
      r: "r = d @ depDiags" and w': "w' = (sn', st'')"
      by (elim getAllDiagnostics_InrE)
    from walk_seen(2)[OF dd] obtain vs where vs: "sn' = sn @ [filename] @ vs" by auto
    from walk_memoised(2)[OF dd]
    have "unitDiagnostics be (fst st') filename = unitDiagnostics be fs filename"
      by (auto dest: memoised_unitDiagnostics)
    moreover from fd have "d = unitDiagnostics be (fst st') filename"
      by (cases st') (auto elim: getFileDiagnostics_InrE)
    ultimately have d: "d = unitDiagnostics be fs filename" by simp
    from 1(4) w' vs False obtain f2 where
      f2: "map_of fs2 filename = Some f2" "diagnostics f2 = Some d"
      unfolding d by auto
    from 1(3)[rule_format, of filename] f f2 have ds2: "deps f2 = Some ds" by simp
    have "\<forall>v \<in> set (fst (sn', st')) - set (fst (sn @ [filename], fs, calls)).
        \<exists>f. map_of fs2 v = Some f \<and>
            diagnostics f = Some (unitDiagnostics be (filesOf (sn @ [filename], fs, calls)) v)"
      using 1(4) w' by auto
    from 1(1)[OF False f dd _ this] 1(3)
    have "depDiagnostics E be2 (filter (isTypescriptDeclaration E) ds) []
            (sn @ [filename], fs2, c2) = Inr (depDiags, (sn', fs2, c2))"
      by simp
    with False f2 ds2 r w' show ?thesis
      by (simp add: getAllDiagnostics.simps getFileDiagnostics_cached)
  qed
next
  case (2 E be result w)
  then show ?case by simp
next
  case (3 E be dep rest result w)
  from 3(3) obtain r1 w1 where
    g: "getAllDiagnostics E be dep w = Inr (r1, w1)" and
    d: "depDiagnostics E be rest (result @ r1) w1 = Inr (r, w')"
    by (elim depDiagnostics_InrE)
  from walk_seen(1)[OF g] obtain vs1 where v1: "fst w1 = fst w @ vs1" by auto
  from walk_seen(2)[OF d] obtain vs2 where v2: "fst w' = fst w1 @ vs2" by auto
  have m: "memoised be (filesOf w) (set (fst w1) - set (fst w)) (filesOf w1)"
    using walk_memoised(1)[OF g] .
  have a1: "\<forall>v \<in> set (fst w1) - set (fst w).
        \<exists>f. map_of fs2 v = Some f \<and> diagnostics f = Some (unitDiagnostics be (filesOf w) v)"
    using 3(5) v1 v2 by auto
  from 3(1)[OF g 3(4) a1]
  have g2: "getAllDiagnostics E be2 dep (fst w, fs2, c2) = Inr (r1, (fst w1, fs2, c2))" .
  have b1: "\<forall>v. map_option deps (map_of fs2 v) = map_option deps (map_of (filesOf w1) v)"
  proof
    fix v
    have "map_option deps (map_of (filesOf w1) v) = map_option deps (map_of (filesOf w) v)"
      using m by (cases "map_of (filesOf w) v") (auto simp: memoised_def)
    with 3(4) show "map_option deps (map_of fs2 v) = map_option deps (map_of (filesOf w1) v)"
      by simp
  qed
  have b2: "\<forall>v \<in> set (fst w') - set (fst w1).
        \<exists>f. map_of fs2 v = Some f \<and> diagnostics f = Some (unitDiagnostics be (filesOf w1) v)"
    using 3(5) v1 v2 memoised_unitDiagnostics[OF m] by auto
  from 3(2)[OF g refl d b1 b2] g2 show ?case by simp
qed



lemma walk_top:
  assumes "\<forall>v \<in> declReach E fs u. unitLoaded fs v"
  shows "\<exists>vs fs' cs.
           getAllDiagnostics E be u ([], fs, calls) =
             Inr (concat (map (unitDiagnostics be fs) (u # vs)), (u # vs, fs', calls @ cs)) \<and>
           distinct (u # vs) \<and> set (u # vs) = declReach E fs u \<and>
           memoised be fs (set (u # vs)) fs' \<and> set cs = diagnosticCalls fs (set (u # vs))"
proof -
  from walk_total(1)[of E "([], fs, calls)" u be] assms obtain r w' where
    g: "getAllDiagnostics E be u ([], fs, calls) = Inr (r, w')" by auto
  from walk_first[OF g] obtain vs where vs: "fst w' = u # vs" by auto
  from walk_seen(1)[OF g] vs have dist: "distinct (u # vs)" by auto
  from walk_result(1)[OF g] vs have r: "r = concat (map (unitDiagnostics be fs) (u # vs))"
    by simp
  from walk_sound(1)[OF g] vs have "set (u # vs) \<subseteq> declReach E fs u" by simp
  moreover have "declReach E fs u \<subseteq> set (u # vs)"
    using walk_closed(1)[OF g] vs by (intro declReach_closed) auto
  ultimately have reach: "set (u # vs) = declReach E fs u" by blast
  from walk_memoised(1)[OF g] vs have m: "memoised be fs (set (u # vs)) (filesOf w')" by simp
  from walk_calls(1)[OF g] vs obtain cs where
    cs: "callsOf w' = calls @ cs" "set cs = diagnosticCalls fs (set (u # vs))" by auto
  from vs cs have "w' = (u # vs, filesOf w', calls @ cs)" by (cases w') auto
  with g r dist reach m cs show ?thesis by metis
qed


lemma diagnosticCalls_no_emit: "GetEmitOutput n \<notin> diagnosticCalls fs V"
  by (auto simp: diagnosticCalls_def)

lemma getCompilationResults_failure_eq:
  assumes "getAllDiagnostics E be u ([], fs, calls) = Inr (ds, (sn, fs', calls1))"
    and "ds @ getCompilerOptionsDiagnostics be \<noteq> []"
  shows "getCompilationResults E be u (fs, calls) =
           Inr (\<lparr>failure = True, errors = ds @ getCompilerOptionsDiagnostics be, js = None,
                 map_text = None\<rparr>, (fs', calls1 @ [GetCompilerOptionsDiagnostics]))"
  using assms(2) by (auto simp: getCompilationResults_def assms(1) Let_def)


section \<open>The example session, evaluated\<close>

lemma example_declDeps:
  "declDeps exampleEnv exampleFiles ''a.ts'' = [''lib.d.ts'']"
  "declDeps exampleEnv exampleFiles ''lib.d.ts'' = []"
  by code_simp+

lemma example_declReach: "declReach exampleEnv exampleFiles ''a.ts'' = {''a.ts'', ''lib.d.ts''}"
proof
  have "\<forall>v \<in> {''a.ts'', ''lib.d.ts''}.
      set (declDeps exampleEnv exampleFiles v) \<subseteq> {''a.ts'', ''lib.d.ts''}"
    by (simp add: example_declDeps)
  then show "declReach exampleEnv exampleFiles ''a.ts'' \<subseteq> {''a.ts'', ''lib.d.ts''}"
    by (intro declReach_closed) simp_all
  have "''lib.d.ts'' \<in> set (declDeps exampleEnv exampleFiles ''a.ts'')"
    by (simp add: example_declDeps)
  from declReach_step[OF this] declReach_refl[of "''lib.d.ts''" exampleEnv exampleFiles]
    declReach_refl[of "''a.ts''" exampleEnv exampleFiles]
  show "{''a.ts'', ''lib.d.ts''} \<subseteq> declReach exampleEnv exampleFiles ''a.ts''" by auto
qed

lemma example_loaded: "\<forall>v \<in> declReach exampleEnv exampleFiles ''a.ts''. unitLoaded exampleFiles v"
proof -
  have "unitLoaded exampleFiles ''a.ts''" "unitLoaded exampleFiles ''lib.d.ts''"
    by code_simp+
  then show ?thesis by (simp add: example_declReach)
qed

lemma example_first_walk:
  "getAllDiagnostics exampleEnv libErrorBackend ''a.ts'' ([], exampleFiles, []) =
     Inr ([''TS2300''], ([''a.ts'', ''lib.d.ts''], exampleFilesDiagnosed, exampleDiagnosticCalls))"
  by code_simp


lemma example_lib_error:
  "\<exists>v \<in> declReach exampleEnv exampleFiles ''a.ts''.
     unitDiagnostics libErrorBackend exampleFiles v \<noteq> []"
proof -
  have "unitDiagnostics libErrorBackend exampleFiles ''lib.d.ts'' \<noteq> []" by code_simp
  then show ?thesis by (simp add: example_declReach)
qed



section \<open>The claims about diagnostics and emit\<close>

text \<open>
  C7.  When every unit that \<open>u\<close> reaches through declaration (\<open>.d.ts\<close>) dependency
  edges is loaded, \<open>getAllDiagnostics\<close> called without \<open>seen\<close> returns the diagnostics
  of \<open>u\<close> followed by those of the other visited units; the visited units are pairwise
  distinct and are exactly the units reachable from \<open>u\<close> through declaration edges, so
  no other dependency is entered and no unit contributes twice.
\<close>

theorem getAllDiagnostics_declaration_closure:
  assumes "\<forall>v \<in> declReach E fs u. unitLoaded fs v"
  shows "\<exists>vs fs' calls'.
           getAllDiagnostics E be u ([], fs, calls) =
             Inr (concat (map (unitDiagnostics be fs) (u # vs)), (u # vs, fs', calls')) \<and>
           distinct (u # vs) \<and> set (u # vs) = declReach E fs u"
  using walk_top[OF assms, of be calls] by blast

theorem getAllDiagnostics_declaration_closure_witness:
  "declReach exampleEnv exampleFiles ''a.ts'' = {''a.ts'', ''lib.d.ts''} \<and>
   unitLoaded exampleFiles ''a.ts'' \<and> unitLoaded exampleFiles ''lib.d.ts'' \<and>
   (\<exists>vs fs' calls'.
     getAllDiagnostics exampleEnv libErrorBackend ''a.ts'' ([], exampleFiles, []) =
       Inr (concat (map (unitDiagnostics libErrorBackend exampleFiles) (''a.ts'' # vs)),
            (''a.ts'' # vs, fs', calls')) \<and>
     distinct (''a.ts'' # vs) \<and> set (''a.ts'' # vs) = {''a.ts'', ''lib.d.ts''})"
  using getAllDiagnostics_declaration_closure
    [of exampleEnv exampleFiles "''a.ts''" libErrorBackend "[]", OF example_loaded]
    example_loaded
  by (simp add: example_declReach)

text \<open>
  C8.  When \<open>getAllDiagnostics\<close> has returned for \<open>u\<close>, a second call in the state it
  left returns the same diagnostics and calls the language service not at all (the call
  log is unchanged, whatever the service would answer now); the first call made each of
  its service calls once, and only for visited units that were not memoised.
\<close>

theorem getAllDiagnostics_memoised:
  assumes "getAllDiagnostics E be u ([], fs, calls) = Inr (r, (sn, fs', calls'))"
  shows "getAllDiagnostics E be2 u ([], fs', calls') = Inr (r, (sn, fs', calls')) \<and>
         (\<exists>cs. calls' = calls @ cs \<and> distinct cs \<and> set cs = diagnosticCalls fs (set sn))"
proof -
  let ?w = "([], fs, calls)" and ?w' = "(sn, fs', calls')"
  have m: "memoised be fs (set sn) fs'" using walk_memoised(1)[OF assms] by simp
  have a: "\<forall>v. map_option deps (map_of fs' v) = map_option deps (map_of (filesOf ?w) v)"
  proof
    fix v show "map_option deps (map_of fs' v) = map_option deps (map_of (filesOf ?w) v)"
      using m by (cases "map_of fs v") (auto simp: memoised_def)
  qed
  have b: "\<forall>v \<in> set (fst ?w') - set (fst ?w).
      \<exists>f. map_of fs' v = Some f \<and> diagnostics f = Some (unitDiagnostics be (filesOf ?w) v)"
  proof
    fix v assume v: "v \<in> set (fst ?w') - set (fst ?w)"
    with walk_visited_loaded(1)[OF assms] have "unitLoaded fs v" by simp
    then obtain f where "map_of fs v = Some f" by (auto simp: unitLoaded_def split: option.splits)
    with m v show "\<exists>f. map_of fs' v = Some f \<and>
        diagnostics f = Some (unitDiagnostics be (filesOf ?w) v)"
      by (auto simp: memoised_def)
  qed
  from walk_replay(1)[OF assms a b, of be2 calls']
  have "getAllDiagnostics E be2 u ([], fs', calls') = Inr (r, (sn, fs', calls'))" by simp
  moreover from walk_calls(1)[OF assms]
  have "\<exists>cs. calls' = calls @ cs \<and> distinct cs \<and> set cs = diagnosticCalls fs (set sn)" by simp
  ultimately show ?thesis by blast
qed

theorem getAllDiagnostics_memoised_witness:
  "getAllDiagnostics exampleEnv libErrorBackend ''a.ts'' ([], exampleFiles, []) =
     Inr ([''TS2300''], ([''a.ts'', ''lib.d.ts''], exampleFilesDiagnosed, exampleDiagnosticCalls)) \<and>
   getAllDiagnostics exampleEnv cleanBackend ''a.ts''
       ([], exampleFilesDiagnosed, exampleDiagnosticCalls) =
     Inr ([''TS2300''], ([''a.ts'', ''lib.d.ts''], exampleFilesDiagnosed, exampleDiagnosticCalls)) \<and>
   (\<exists>cs. exampleDiagnosticCalls = [] @ cs \<and> distinct cs \<and>
         set cs = diagnosticCalls exampleFiles (set [''a.ts'', ''lib.d.ts'']))"
  using getAllDiagnostics_memoised[OF example_first_walk, of cleanBackend] example_first_walk
  by simp

text \<open>
  C5.  After the readiness wait (every unit reached through declaration edges is
  loaded), when \<open>u\<close> or a unit it reaches through declaration edges has a diagnostic,
  \<open>getCompilationResults\<close> returns normally with \<open>failure: true\<close> and \<open>js\<close> and \<open>map\<close>
  undefined.  Its \<open>errors\<close> are the diagnostics \<open>getAllDiagnostics\<close> has gathered, those
  of \<open>u\<close> followed by those of the other units reached through declaration edges, each
  unit once, followed by the diagnostics of the compiler options; the list is not
  empty.  The state it leaves has these diagnostics memoised, and the service was
  called for the diagnostics not yet memoised and for the diagnostics of the compiler
  options, but not for emit.
\<close>

theorem getCompilationResults_failure:
  assumes "\<forall>v \<in> declReach E fs u. unitLoaded fs v"
    and "\<exists>v \<in> declReach E fs u. unitDiagnostics be fs v \<noteq> []"
  shows "\<exists>vs fs' cs.
           getAllDiagnostics E be u ([], fs, calls) =
             Inr (concat (map (unitDiagnostics be fs) (u # vs)), (u # vs, fs', calls @ cs)) \<and>
           getCompilationResults E be u (fs, calls) =
             Inr (\<lparr>failure = True,
                   errors = concat (map (unitDiagnostics be fs) (u # vs)) @
                            getCompilerOptionsDiagnostics be,
                   js = None, map_text = None\<rparr>,
                  (fs', calls @ cs @ [GetCompilerOptionsDiagnostics])) \<and>
           distinct (u # vs) \<and> set (u # vs) = declReach E fs u \<and>
           concat (map (unitDiagnostics be fs) (u # vs)) \<noteq> [] \<and>
           memoised be fs (declReach E fs u) fs' \<and>
           set cs = diagnosticCalls fs (declReach E fs u) \<and>
           (\<forall>n. GetEmitOutput n \<notin> set (cs @ [GetCompilerOptionsDiagnostics]))"
proof -
  from walk_top[OF assms(1), of be calls] obtain vs fs' cs where
    g: "getAllDiagnostics E be u ([], fs, calls) =
          Inr (concat (map (unitDiagnostics be fs) (u # vs)), (u # vs, fs', calls @ cs))" and
    dist: "distinct (u # vs)" and
    reach: "set (u # vs) = declReach E fs u" and
    m: "memoised be fs (set (u # vs)) fs'" and
    cs: "set cs = diagnosticCalls fs (set (u # vs))"
    by blast
  define ds where "ds = concat (map (unitDiagnostics be fs) (u # vs))"
  from assms(2) reach have "\<exists>v \<in> set (u # vs). unitDiagnostics be fs v \<noteq> []" by simp
  then have ne: "ds \<noteq> []" unfolding ds_def by (simp del: list.map)
  then have ne': "ds @ getCompilerOptionsDiagnostics be \<noteq> []" by simp
  from getCompilationResults_failure_eq[OF g[folded ds_def] ne']
  have r: "getCompilationResults E be u (fs, calls) =
      Inr (\<lparr>failure = True, errors = ds @ getCompilerOptionsDiagnostics be, js = None,
            map_text = None\<rparr>, (fs', calls @ cs @ [GetCompilerOptionsDiagnostics]))"
    by simp
  have e: "\<forall>n. GetEmitOutput n \<notin> set (cs @ [GetCompilerOptionsDiagnostics])"
    using cs by (simp add: diagnosticCalls_no_emit)
  from g[folded ds_def] r dist reach ne m[unfolded reach] cs[unfolded reach] e
  show ?thesis unfolding ds_def by blast
qed

theorem getCompilationResults_failure_witness:
  "declReach exampleEnv exampleFiles ''a.ts'' = {''a.ts'', ''lib.d.ts''} \<and>
   unitLoaded exampleFiles ''a.ts'' \<and> unitLoaded exampleFiles ''lib.d.ts'' \<and>
   unitDiagnostics libErrorBackend exampleFiles ''lib.d.ts'' = [''TS2300''] \<and>
   getCompilationResults exampleEnv libErrorBackend ''a.ts'' (exampleFiles, []) =
     Inr (\<lparr>failure = True, errors = [''TS2300''], js = None, map_text = None\<rparr>,
          (exampleFilesDiagnosed, exampleDiagnosticCalls @ [GetCompilerOptionsDiagnostics])) \<and>
   (\<exists>vs fs' cs.
      getCompilationResults exampleEnv libErrorBackend ''a.ts'' (exampleFiles, []) =
        Inr (\<lparr>failure = True,
              errors = concat (map (unitDiagnostics libErrorBackend exampleFiles) (''a.ts'' # vs)) @
                       getCompilerOptionsDiagnostics libErrorBackend,
              js = None, map_text = None\<rparr>,
             (fs', [] @ cs @ [GetCompilerOptionsDiagnostics])) \<and>
      distinct (''a.ts'' # vs) \<and> set (''a.ts'' # vs) = {''a.ts'', ''lib.d.ts''} \<and>
      concat (map (unitDiagnostics libErrorBackend exampleFiles) (''a.ts'' # vs)) \<noteq> [] \<and>
      set cs = diagnosticCalls exampleFiles {''a.ts'', ''lib.d.ts''})"
proof -
  have d: "unitDiagnostics libErrorBackend exampleFiles ''lib.d.ts'' = [''TS2300'']" by code_simp
  have r: "getCompilationResults exampleEnv libErrorBackend ''a.ts'' (exampleFiles, []) =
     Inr (\<lparr>failure = True, errors = [''TS2300''], js = None, map_text = None\<rparr>,
          (exampleFilesDiagnosed, exampleDiagnosticCalls @ [GetCompilerOptionsDiagnostics]))"
    by code_simp
  from getCompilationResults_failure[OF example_loaded example_lib_error, of "[]"]
  obtain vs fs' cs where
    "getCompilationResults exampleEnv libErrorBackend ''a.ts'' (exampleFiles, []) =
        Inr (\<lparr>failure = True,
              errors = concat (map (unitDiagnostics libErrorBackend exampleFiles) (''a.ts'' # vs)) @
                       getCompilerOptionsDiagnostics libErrorBackend,
              js = None, map_text = None\<rparr>,
             (fs', [] @ cs @ [GetCompilerOptionsDiagnostics]))"
    "distinct (''a.ts'' # vs)"
    "set (''a.ts'' # vs) = declReach exampleEnv exampleFiles ''a.ts''"
    "concat (map (unitDiagnostics libErrorBackend exampleFiles) (''a.ts'' # vs)) \<noteq> []"
    "set cs = diagnosticCalls exampleFiles (declReach exampleEnv exampleFiles ''a.ts'')"
    by blast
  then have e: "\<exists>vs fs' cs.
      getCompilationResults exampleEnv libErrorBackend ''a.ts'' (exampleFiles, []) =
        Inr (\<lparr>failure = True,
              errors = concat (map (unitDiagnostics libErrorBackend exampleFiles) (''a.ts'' # vs)) @
                       getCompilerOptionsDiagnostics libErrorBackend,
              js = None, map_text = None\<rparr>,
             (fs', [] @ cs @ [GetCompilerOptionsDiagnostics])) \<and>
      distinct (''a.ts'' # vs) \<and> set (''a.ts'' # vs) = {''a.ts'', ''lib.d.ts''} \<and>
      concat (map (unitDiagnostics libErrorBackend exampleFiles) (''a.ts'' # vs)) \<noteq> [] \<and>
      set cs = diagnosticCalls exampleFiles {''a.ts'', ''lib.d.ts''}"
    unfolding example_declReach by (intro exI conjI)
  have l: "unitLoaded exampleFiles ''a.ts''" "unitLoaded exampleFiles ''lib.d.ts''"
    by code_simp+
  from example_declReach l d r e show ?thesis by (intro conjI)
qed



section \<open>Properties of loading\<close>

lemma fileKeys_map_of: "nm \<in> fileKeys c \<longleftrightarrow> map_of (files c) nm \<noteq> None"
  by (simp add: fileKeys_def map_of_eq_None_iff)

lemma map_of_updateFile:
  "map_of (files (updateFile nm g c)) x =
     (if x = nm then map_option g (map_of (files c) nm) else map_of (files c) x)"
  by (simp add: updateFile_def map_of_map_entry split: option.splits)

lemma updateFile_other [simp]:
  "nextPromise (updateFile nm g c) = nextPromise c"
  "fetchCalls (updateFile nm g c) = fetchCalls c"
  "addFileCalls (updateFile nm g c) = addFileCalls c"
  by (simp_all add: updateFile_def)

lemma fileKeys_updateFile [simp]: "fileKeys (updateFile nm g c) = fileKeys c"
  by (auto simp: fileKeys_map_of map_of_updateFile split: if_splits)

lemma load_present:
  "map_of (files c) nm = Some f \<Longrightarrow> load E nm c = (loadedId f, c)"
  by (simp add: load_def)

lemma load_absent:
  "map_of (files c) nm = None \<Longrightarrow>
   load E nm c =
     (nextPromise c,
      c\<lparr>files := files c @ [(nm, freshEntry E nm (nextPromise c))],
        nextPromise := Suc (nextPromise c), fetchCalls := fetchCalls c @ [nm]\<rparr>)"
  by (simp add: load_def freshEntry_def)

lemma map_of_load:
  "map_of (files (snd (load E nm c))) x =
     (case map_of (files c) x of
        Some g \<Rightarrow> Some g
      | None \<Rightarrow> if x = nm then Some (freshEntry E nm (nextPromise c)) else None)"
  by (cases "map_of (files c) nm")
     (auto simp: load_absent load_present map_add_def split: option.splits)

lemma addFileCalls_load [simp]: "addFileCalls (snd (load E nm c)) = addFileCalls c"
  by (cases "map_of (files c) nm") (auto simp: load_absent load_present)

lemma fetches_load:
  "fetches (snd (load E nm c)) x =
     fetches c x + (if x = nm \<and> nm \<notin> fileKeys c then 1 else 0)"
  by (cases "map_of (files c) nm")
     (auto simp: load_absent load_present fetches_def fileKeys_map_of)

lemma fileKeys_load [simp]: "fileKeys (snd (load E nm c)) = insert nm (fileKeys c)"
  by (auto simp: fileKeys_map_of map_of_load split: option.splits if_splits)

lemma loadAll_fileKeys [simp]: "fileKeys (loadAll E ds c) = fileKeys c \<union> set ds"
  by (induction ds arbitrary: c) auto

lemma loadAll_addFileCalls [simp]: "addFileCalls (loadAll E ds c) = addFileCalls c"
  by (induction ds arbitrary: c) auto

lemma loadAll_present:
  "map_of (files c) x = Some g \<Longrightarrow> map_of (files (loadAll E ds c)) x = Some g"
  by (induction ds arbitrary: c) (auto simp: map_of_load)

lemma loadAll_absent:
  "map_of (files c) x = None \<Longrightarrow> x \<notin> set ds \<Longrightarrow> map_of (files (loadAll E ds c)) x = None"
  by (induction ds arbitrary: c) (auto simp: map_of_load)

lemma loadAll_fresh:
  "map_of (files c) x = None \<Longrightarrow> x \<in> set ds \<Longrightarrow>
     \<exists>i. map_of (files (loadAll E ds c)) x = Some (freshEntry E x i)"
proof (induction ds arbitrary: c)
  case Nil
  then show ?case by simp
next
  case (Cons d ds)
  show ?case
  proof (cases "x = d")
    case True
    with Cons.prems have "map_of (files (snd (load E d c))) x = Some (freshEntry E x (nextPromise c))"
      by (simp add: map_of_load)
    from loadAll_present[OF this] show ?thesis by auto
  next
    case False
    with Cons.prems have "map_of (files (snd (load E d c))) x = None" "x \<in> set ds"
      by (simp_all add: map_of_load)
    from Cons.IH[OF this] show ?thesis by simp
  qed
qed

lemma loadAll_fetches:
  "fetches (loadAll E ds c) x = fetches c x + (if x \<in> set ds \<and> x \<notin> fileKeys c then 1 else 0)"
  by (induction ds arbitrary: c) (auto simp: fetches_load)


lemma registrations_updateFile [simp]:
  "registrations (updateFile nm g c) = registrations c"
  by (simp add: registrations_def fun_eq_iff)

lemma fetches_updateFile [simp]: "fetches (updateFile nm g c) = fetches c"
  by (simp add: fetches_def fun_eq_iff)

lemma registrations_loadAll [simp]: "registrations (loadAll E ds c) = registrations c"
  by (simp add: registrations_def fun_eq_iff)

lemma fetched_effect:
  assumes "fetched E x c = Some c'"
  obtains f g where
    "map_of (files c) x = Some f" "loaded f = Pending" "srcText f = None"
    "c' = updateFile x g c"
    "(\<exists>e. fetch E x = Inl e \<and> g = (\<lambda>f. f\<lparr>loaded := Rejected e\<rparr>)) \<or>
     (\<exists>t. fetch E x = Inr t \<and> g = (\<lambda>f. f\<lparr>srcText := Some t\<rparr>))"
  using assms
  by (auto simp: fetched_def split: option.splits if_splits sum.splits)

lemma resolved_effect:
  assumes "resolved E x c = Some c'"
  obtains f t dso st where
    "map_of (files c) x = Some f" "srcText f = Some t" "loaded f = Pending" "deps f = None"
    "map_of (files c') x = Some (f\<lparr>deps := dso, loaded := st\<rparr>)"
    "st \<noteq> Pending" "st = Fulfilled \<longrightarrow> dso \<noteq> None"
    "\<forall>ds. dso = Some ds \<longrightarrow> (\<exists>m. getDependencies E x t = Inr m \<and> ds = map snd m)"
    "fileKeys c' = fileKeys c \<union> (case dso of None \<Rightarrow> {} | Some ds \<Rightarrow> set ds)"
    "\<forall>y. y \<noteq> x \<longrightarrow> map_of (files c') y = map_of (files c) y \<or>
        (map_of (files c) y = None \<and> (\<exists>i. map_of (files c') y = Some (freshEntry E y i)))"
    "\<forall>y. registrations c' y = registrations c y + (if y = x \<and> st = Fulfilled then 1 else 0)"
    "\<forall>y. fetches c' y = fetches c y + (if y \<in> fileKeys c' - fileKeys c then 1 else 0)"
proof -
  from assms obtain f t where
    f: "map_of (files c) x = Some f" "srcText f = Some t" "loaded f = Pending" "deps f = None"
    by (auto simp: resolved_def split: option.splits if_splits)
  show thesis
  proof (cases "getDependencies E x t")
    case (Inl e)
    with assms f have c': "c' = updateFile x (\<lambda>f. f\<lparr>loaded := Rejected e\<rparr>) c"
      by (simp add: resolved_def)
    show thesis
    proof (rule that[where dso = None and st = "Rejected e", OF f])
      show "map_of (files c') x = Some (f\<lparr>deps := None, loaded := Rejected e\<rparr>)"
        using f c' by (simp add: map_of_updateFile)
    qed (simp_all add: c' map_of_updateFile)
  next
    case (Inr m)
    define ds where "ds = map snd m"
    define c1 where "c1 = updateFile x (\<lambda>f. f\<lparr>deps := Some ds\<rparr>) c"
    define c2 where "c2 = loadAll E ds c1"
    have x1: "map_of (files c1) x = Some (f\<lparr>deps := Some ds\<rparr>)"
      using f by (simp add: c1_def map_of_updateFile)
    then have x2: "map_of (files c2) x = Some (f\<lparr>deps := Some ds\<rparr>)"
      unfolding c2_def by (rule loadAll_present)
    have k2: "fileKeys c2 = fileKeys c \<union> set ds" by (simp add: c2_def c1_def)
    have o2: "\<forall>y. y \<noteq> x \<longrightarrow> map_of (files c2) y = map_of (files c) y \<or>
        (map_of (files c) y = None \<and> (\<exists>i. map_of (files c2) y = Some (freshEntry E y i)))"
    proof (intro allI impI)
      fix y assume "y \<noteq> x"
      then have e: "map_of (files c1) y = map_of (files c) y"
        by (simp add: c1_def map_of_updateFile)
      show "map_of (files c2) y = map_of (files c) y \<or>
        (map_of (files c) y = None \<and> (\<exists>i. map_of (files c2) y = Some (freshEntry E y i)))"
      proof (cases "map_of (files c) y")
        case None
        with e loadAll_fresh[of c1 y ds E] loadAll_absent[of c1 y ds E] show ?thesis
          unfolding c2_def by (cases "y \<in> set ds") auto
      next
        case (Some g)
        with e loadAll_present[of c1 y g E ds] show ?thesis unfolding c2_def by simp
      qed
    qed
    have r2: "registrations c2 = registrations c" by (simp add: c2_def c1_def)
    have f2: "\<forall>y. fetches c2 y = fetches c y + (if y \<in> fileKeys c2 - fileKeys c then 1 else 0)"
      by (auto simp: c2_def c1_def loadAll_fetches)
    show thesis
    proof (cases "replaceAmbients E (files c2) t m")
      case (Inl e)
      with assms f Inr have c': "c' = updateFile x (\<lambda>f. f\<lparr>loaded := Rejected e\<rparr>) c2"
        by (simp add: resolved_def Let_def c2_def c1_def ds_def)
      show thesis
      proof (rule that[where dso = "Some ds" and st = "Rejected e", OF f])
        show "map_of (files c') x = Some (f\<lparr>deps := Some ds, loaded := Rejected e\<rparr>)"
          using x2 c' by (simp add: map_of_updateFile)
        show "\<forall>ds'. Some ds = Some ds' \<longrightarrow> (\<exists>m. getDependencies E x t = Inr m \<and> ds' = map snd m)"
          using Inr ds_def by auto
        show "\<forall>y. y \<noteq> x \<longrightarrow> map_of (files c') y = map_of (files c) y \<or>
          (map_of (files c) y = None \<and> (\<exists>i. map_of (files c') y = Some (freshEntry E y i)))"
          using o2 c' by (simp add: map_of_updateFile)
        show "\<forall>y. fetches c' y = fetches c y + (if y \<in> fileKeys c' - fileKeys c then 1 else 0)"
          using f2 c' by simp
      qed (simp_all add: c' k2 r2)
    next
      case (Inr tx)
      with assms f \<open>getDependencies E x t = Inr m\<close>
      have c': "c' = (updateFile x (\<lambda>f. f\<lparr>loaded := Fulfilled\<rparr>) c2)
                       \<lparr>addFileCalls := addFileCalls c2 @ [(x, tsname f, tx)]\<rparr>"
        by (simp add: resolved_def Let_def c2_def c1_def ds_def)
      have "fileKeys c' = fileKeys (updateFile x (\<lambda>f. f\<lparr>loaded := Fulfilled\<rparr>) c2)"
        by (simp add: c' fileKeys_def)
      then have fk: "fileKeys c' = fileKeys c2" by simp
      have mo: "\<And>y. map_of (files c') y = map_of (files (updateFile x (\<lambda>f. f\<lparr>loaded := Fulfilled\<rparr>) c2)) y"
        by (simp add: c')
      show thesis
      proof (rule that[where dso = "Some ds" and st = "Fulfilled", OF f])
        show "map_of (files c') x = Some (f\<lparr>deps := Some ds, loaded := Fulfilled\<rparr>)"
          using x2 by (simp add: mo map_of_updateFile)
        show "\<forall>ds'. Some ds = Some ds' \<longrightarrow> (\<exists>m. getDependencies E x t = Inr m \<and> ds' = map snd m)"
          using \<open>getDependencies E x t = Inr m\<close> ds_def by auto
        show "\<forall>y. y \<noteq> x \<longrightarrow> map_of (files c') y = map_of (files c) y \<or>
          (map_of (files c) y = None \<and> (\<exists>i. map_of (files c') y = Some (freshEntry E y i)))"
          using o2 by (simp add: mo map_of_updateFile)
        show "\<forall>y. fetches c' y = fetches c y + (if y \<in> fileKeys c' - fileKeys c then 1 else 0)"
          using f2 by (simp add: fk) (simp add: c' fetches_def)
        show "\<forall>y. registrations c' y =
            registrations c y + (if y = x \<and> Fulfilled = Fulfilled then 1 else 0)"
          using r2 by (auto simp: c' registrations_def fun_eq_iff)
        show "fileKeys c' = fileKeys c \<union> (case Some ds of None \<Rightarrow> {} | Some ds \<Rightarrow> set ds)"
          using fk k2 by simp
      qed simp_all
    qed
  qed
qed




lemma unitFulfilled_fresh:
  "map_of (files c) nm = Some (freshEntry E nm i) \<Longrightarrow> \<not> unitFulfilled c nm"
  by (simp add: unitFulfilled_def freshEntry_def)





section \<open>Properties of the readiness wait\<close>




















lemma example_run:
  "run exampleEnv exampleEvents (exampleStart, canEmit (files exampleStart) ''a.ts'') =
     Some (exampleLoaded, exampleReady)"
  by code_simp






section \<open>Properties of the registries\<close>

lemma load_entry: "\<exists>f. map_of (files (snd (load E x c))) x = Some f \<and> loadedId f = fst (load E x c)"
proof (cases "map_of (files c) x")
  case None
  then have "map_of (files (snd (load E x c))) x = Some (freshEntry E x (nextPromise c))"
    by (simp add: map_of_load)
  moreover from None have "fst (load E x c) = nextPromise c" by (simp add: load_absent)
  ultimately show ?thesis by (simp add: freshEntry_def)
next
  case (Some f)
  then show ?thesis by (simp add: load_present)
qed

lemma load_twice: "load E x (snd (load E x c)) = load E x c"
proof -
  from load_entry obtain f where
    "map_of (files (snd (load E x c))) x = Some f" "loadedId f = fst (load E x c)" by blast
  then show ?thesis by (simp add: load_present)
qed

lemma load_fetches: "fetches (snd (load E x c)) x \<le> fetches c x + 1"
  by (simp add: fetches_load)

lemma step_keeps_entry:
  assumes "step E ev (c, r) = Some (c', r')" and "map_of (files c) x = Some f"
  shows "\<exists>f'. map_of (files c') x = Some f' \<and> loadedId f' = loadedId f \<and>
              fetches c' x = fetches c x"
proof (cases ev)
  case (Fetched y)
  with assms(1) have "fetched E y c = Some c'" by auto
  then obtain g h where "c' = updateFile y h c"
    "(\<exists>e. fetch E y = Inl e \<and> h = (\<lambda>f. f\<lparr>loaded := Rejected e\<rparr>)) \<or>
     (\<exists>t. fetch E y = Inr t \<and> h = (\<lambda>f. f\<lparr>srcText := Some t\<rparr>))"
    by (rule fetched_effect)
  with assms(2) show ?thesis by (auto simp: map_of_updateFile)
next
  case (Resolved y)
  with assms(1) have "resolved E y c = Some c'" by auto
  then obtain g t dso st where
    y: "map_of (files c) y = Some g"
       "map_of (files c') y = Some (g\<lparr>deps := dso, loaded := st\<rparr>)" and
    others: "\<forall>z. z \<noteq> y \<longrightarrow> map_of (files c') z = map_of (files c) z \<or>
        (map_of (files c) z = None \<and> (\<exists>i. map_of (files c') z = Some (freshEntry E z i)))" and
    fts: "\<forall>z. fetches c' z = fetches c z + (if z \<in> fileKeys c' - fileKeys c then 1 else 0)"
    by (rule resolved_effect)
  from assms(2) have "x \<in> fileKeys c" by (simp add: fileKeys_map_of)
  with fts have ft: "fetches c' x = fetches c x" by simp
  show ?thesis
  proof (cases "x = y")
    case True
    with y assms(2) ft show ?thesis by simp
  next
    case False
    with others assms(2) have "map_of (files c') x = Some f" by auto
    with ft show ?thesis by simp
  qed
next
  case (CanEmitLoaded y)
  with assms show ?thesis by auto
qed

lemma run_keeps_entry:
  "run E evs (c, r) = Some (c', r') \<Longrightarrow> map_of (files c) x = Some f \<Longrightarrow>
   \<exists>f'. map_of (files c') x = Some f' \<and> loadedId f' = loadedId f \<and> fetches c' x = fetches c x"
proof (induction evs arbitrary: c r f)
  case Nil
  then show ?case by simp
next
  case (Cons ev evs)
  from Cons.prems(1) obtain c1 r1 where
    s: "step E ev (c, r) = Some (c1, r1)" and rest: "run E evs (c1, r1) = Some (c', r')"
    by (auto split: option.splits)
  from step_keeps_entry[OF s Cons.prems(2)] obtain f1 where
    f1: "map_of (files c1) x = Some f1" "loadedId f1 = loadedId f" "fetches c1 x = fetches c x"
    by blast
  from Cons.IH[OF rest f1(1)] f1 show ?case by auto
qed

lemma load_again:
  assumes "run E evs (snd (load E x c), r) = Some (c', r')"
  shows "load E x c' = (fst (load E x c), c') \<and> fetches c' x = fetches (snd (load E x c)) x"
proof -
  from load_entry obtain f where
    f: "map_of (files (snd (load E x c))) x = Some f" "loadedId f = fst (load E x c)" by blast
  from run_keeps_entry[OF assms f(1)] f(2) show ?thesis by (auto simp: load_present)
qed

text \<open>the checker\<close>

lemma map_of_updateTcFile:
  "map_of (tcFiles (updateTcFile nm g tc)) x =
     (if x = nm then map_option g (map_of (tcFiles tc) nm) else map_of (tcFiles tc) x)"
  by (simp add: updateTcFile_def map_of_map_entry split: option.splits)

lemma tcFetches_updateTcFile [simp]: "tcFetches (updateTcFile nm g tc) = tcFetches tc"
  by (simp add: tcFetches_def updateTcFile_def fun_eq_iff)

lemma keepsFile_refl: "keepsFile x tc tc"
  by (simp add: keepsFile_def split: option.splits)

lemma keepsFile_trans: "keepsFile x tc1 tc2 \<Longrightarrow> keepsFile x tc2 tc3 \<Longrightarrow> keepsFile x tc1 tc3"
  by (auto simp: keepsFile_def split: option.splits)

lemma keepsFile_updateTcFile:
  "(\<And>f. fileId (g f) = fileId f) \<Longrightarrow> keepsFile x tc (updateTcFile nm g tc)"
  by (auto simp: keepsFile_def map_of_updateTcFile split: option.splits)

lemma keepsFile_fields:
  "tcFiles tc' = tcFiles tc \<Longrightarrow> tcFetchCalls tc' = tcFetchCalls tc \<Longrightarrow> keepsFile x tc tc'"
  by (auto simp: keepsFile_def tcFetches_def split: option.splits)

lemma registerFile_present:
  "map_of (tcFiles tc) nm = Some f \<Longrightarrow> registerFile E nm tc = (fileId f, tc)"
  by (simp add: registerFile_def)

lemma keepsFile_registerFile: "keepsFile x tc (snd (registerFile E nm tc))"
proof (cases "map_of (tcFiles tc) nm")
  case None
  then show ?thesis
    by (auto simp: keepsFile_def registerFile_def tcFetches_def split: option.splits)
next
  case (Some f)
  then show ?thesis by (simp add: registerFile_present keepsFile_refl)
qed

lemma keepsFile_registerAll:
  "keepsFile x tc (fold (\<lambda>res tc. snd (registerFile E res tc)) ds tc)"
proof (induction ds arbitrary: tc)
  case Nil
  show ?case by (simp add: keepsFile_refl)
next
  case (Cons d ds)
  from keepsFile_trans[OF keepsFile_registerFile Cons.IH] show ?case by simp
qed

lemma keepsFile_registerSource:
  "registerSource nm src tc = Inr tc' \<Longrightarrow> keepsFile x tc tc'"
  by (auto simp: registerSource_def split: option.splits intro!: keepsFile_updateTcFile)

lemma keepsFile_diagnoseDep: "keepsFile x tc (snd (diagnoseDep p dep (diags, tc)))"
proof -
  have "keepsFile x tc (updateTcFile dep (\<lambda>f. f\<lparr>checked := True\<rparr>) tc)"
    by (rule keepsFile_updateTcFile) simp
  moreover have "keepsFile x (updateTcFile dep (\<lambda>f. f\<lparr>checked := True\<rparr>) tc)
      ((updateTcFile dep (\<lambda>f. f\<lparr>checked := True\<rparr>) tc)
         \<lparr>programCalls := programCalls tc @ [ProgramSyntactic dep, ProgramSemantic dep]\<rparr>)"
    by (rule keepsFile_fields) simp_all
  ultimately show ?thesis
    by (auto simp: diagnoseDep_def keepsFile_refl split: option.splits intro: keepsFile_trans)
qed

lemma keepsFile_diagnoseAll:
  "keepsFile x tc (snd (fold (diagnoseDep p) ds (diags, tc)))"
proof (induction ds arbitrary: diags tc)
  case Nil
  show ?case by (simp add: keepsFile_refl)
next
  case (Cons d ds)
  obtain diags1 tc1 where s: "diagnoseDep p d (diags, tc) = (diags1, tc1)"
    by (cases "diagnoseDep p d (diags, tc)") auto
  with keepsFile_diagnoseDep[of x tc p d diags] have "keepsFile x tc tc1" by simp
  from keepsFile_trans[OF this Cons.IH[of tc1 diags1]] s show ?case by simp
qed


lemma keepsFile_then_fields:
  "keepsFile x tc tc1 \<Longrightarrow> tcFiles tc' = tcFiles tc1 \<Longrightarrow> tcFetchCalls tc' = tcFetchCalls tc1 \<Longrightarrow>
   keepsFile x tc tc'"
  by (auto simp: keepsFile_def tcFetches_def split: option.splits)

lemma keepsFile_tcFetched:
  assumes "tcFetched E nm tc = Some tc'"
  shows "keepsFile x tc tc'"
proof -
  let ?tc1 = "updateTcFile nm (\<lambda>f. f\<lparr>fetching := False\<rparr>) tc"
  have k1: "keepsFile x tc ?tc1" by (rule keepsFile_updateTcFile) simp
  show ?thesis
  proof (cases "fetch E nm")
    case (Inl e)
    with assms have "tc' = ?tc1"
      by (auto simp: tcFetched_def Let_def split: option.splits if_splits)
    with k1 show ?thesis by simp
  next
    case (Inr src)
    let ?tc1h = "?tc1\<lparr>hostFiles := hostFiles ?tc1 @ [(nm, src)]\<rparr>"
    have k2: "keepsFile x tc ?tc1h" by (rule keepsFile_then_fields[OF k1]) simp_all
    show ?thesis
    proof (cases "registerSource nm src ?tc1h")
      case (Inl e)
      with assms Inr have "tc' = ?tc1"
        by (auto simp: tcFetched_def Let_def split: option.splits if_splits)
      with k1 show ?thesis by simp
    next
      case (Inr tc2)
      with assms \<open>fetch E nm = Inr src\<close> have "tc' = tc2"
        by (auto simp: tcFetched_def Let_def split: option.splits if_splits)
      with keepsFile_trans[OF k2 keepsFile_registerSource[OF Inr]] show ?thesis by simp
    qed
  qed
qed

lemma keepsFile_tcDepsResolved:
  assumes "tcDepsResolved E X nm tc = Some tc'"
  shows "keepsFile x tc tc'"
proof -
  from assms obtain f src where
    f: "map_of (tcFiles tc) nm = Some f" "source f = Some src"
       "tcLoaded f = Pending" "tcDeps f = None"
    by (auto simp: tcDepsResolved_def split: option.splits if_splits)
  show ?thesis
  proof (cases "resolveDependencies E X nm src")
    case (Inl e)
    with assms f have "tc' = updateTcFile nm (\<lambda>f. f\<lparr>tcLoaded := Rejected e\<rparr>) tc"
      by (simp add: tcDepsResolved_def)
    then show ?thesis by (simp add: keepsFile_updateTcFile)
  next
    case (Inr depsMap)
    define ds where "ds = filter (isTypescript E) (map snd depsMap)"
    define tc1 where "tc1 = tc\<lparr>resolutionMaps := resolutionMaps tc @ [(nm, depsMap)]\<rparr>"
    define tc2 where "tc2 = fold (\<lambda>res tc. snd (registerFile E res tc)) ds tc1"
    define tc3 where "tc3 = updateTcFile nm (\<lambda>f. f\<lparr>tcDeps := Some ds\<rparr>) tc2"
    from assms f Inr have tc': "tc' = tc3\<lparr>defaultLibResolved :=
        (case defaultLibResolved tc3 of None \<Rightarrow> Some Pending | Some p \<Rightarrow> Some p)\<rparr>"
      by (simp add: tcDepsResolved_def Let_def ds_def tc1_def tc2_def tc3_def)
    have "keepsFile x tc tc1" unfolding tc1_def by (rule keepsFile_fields) simp_all
    moreover have "keepsFile x tc1 tc2" unfolding tc2_def by (rule keepsFile_registerAll)
    moreover have "keepsFile x tc2 tc3" unfolding tc3_def by (rule keepsFile_updateTcFile) simp
    ultimately have "keepsFile x tc tc3" by (blast intro: keepsFile_trans)
    then show ?thesis unfolding tc' by (rule keepsFile_then_fields) simp_all
  qed
qed

lemma keepsFile_tcDefaultLibResolved:
  assumes "tcDefaultLibResolved E X tc = Some tc'"
  shows "keepsFile x tc tc'"
proof (cases "resolve E (getDefaultLibFileName X) None")
  case (Inl e)
  with assms have "tc' = tc\<lparr>defaultLibResolved := Some (Rejected e)\<rparr>"
    by (auto simp: tcDefaultLibResolved_def split: if_splits)
  then show ?thesis by (simp add: keepsFile_fields)
next
  case (Inr res)
  let ?tc1 = "tc\<lparr>defaultLibFileName := Some res\<rparr>"
  from assms Inr have tc': "tc' = (snd (registerFile E res ?tc1))\<lparr>defaultLibResolved := Some Fulfilled\<rparr>"
    by (auto simp: tcDefaultLibResolved_def split: if_splits)
  have "keepsFile x tc ?tc1" by (rule keepsFile_fields) simp_all
  from keepsFile_trans[OF this keepsFile_registerFile]
  have "keepsFile x tc (snd (registerFile E res ?tc1))" .
  then show ?thesis unfolding tc' by (rule keepsFile_then_fields) simp_all
qed

lemma keepsFile_tcLoadedDone:
  assumes "tcLoadedDone nm tc = Some tc'"
  shows "keepsFile x tc tc'"
proof -
  from assms obtain g where "tc' = updateTcFile nm g tc" "\<And>f. fileId (g f) = fileId f"
    by (auto simp: tcLoadedDone_def split: option.splits if_splits promise.splits)
  then show ?thesis by (simp add: keepsFile_updateTcFile)
qed

lemma keepsFile_tcCanEmitStart:
  assumes "tcCanEmitStart nm tc = Some tc'"
  shows "keepsFile x tc tc'"
proof -
  from assms have "tcFiles tc' = tcFiles tc \<and> tcFetchCalls tc' = tcFetchCalls tc"
    by (auto simp: tcCanEmitStart_def split: option.splits if_splits promise.splits)
  then show ?thesis by (simp add: keepsFile_fields)
qed

lemma keepsFile_tcGetAllDiagnostics:
  assumes "tcGetAllDiagnostics X nm tc = Inr (diags, tc')"
  shows "keepsFile x tc tc'"
proof (cases "accumulateDeps (tcFiles tc) nm []")
  case (Inl e)
  with assms show ?thesis by (simp add: tcGetAllDiagnostics_def)
next
  case (Inr ds)
  let ?p = "createProgram X (ds @ [htmlModule X])"
  let ?tc1 = "tc\<lparr>programCalls := programCalls tc @ [CreateProgram (ds @ [htmlModule X])]\<rparr>"
  from assms Inr have "fold (diagnoseDep ?p) ds (getGlobalDiagnostics ?p, ?tc1) = (diags, tc')"
    by (simp add: tcGetAllDiagnostics_def Let_def)
  then have tc': "tc' = snd (fold (diagnoseDep ?p) ds (getGlobalDiagnostics ?p, ?tc1))" by simp
  have "keepsFile x tc ?tc1" by (rule keepsFile_fields) simp_all
  from keepsFile_trans[OF this keepsFile_diagnoseAll] show ?thesis unfolding tc' .
qed

lemma keepsFile_tcDiagnose:
  assumes "tcDiagnose X nm tc = Some tc'"
  shows "keepsFile x tc tc'"
proof -
  from assms obtain r where r: "map_of (requests tc) nm = Some r" "map_of (errorsOf tc) nm = None"
    by (auto simp: tcDiagnose_def split: option.splits if_splits)
  show ?thesis
  proof (cases "status r = Fulfilled")
    case False
    with assms r have "tcFiles tc' = tcFiles tc \<and> tcFetchCalls tc' = tcFetchCalls tc"
      by (cases "status r") (auto simp: tcDiagnose_def)
    then show ?thesis by (simp add: keepsFile_fields)
  next
    case True
    show ?thesis
    proof (cases "tcGetAllDiagnostics X nm tc")
      case (Inl e)
      with assms r True have "tc' = tc\<lparr>errorsOf := errorsOf tc @ [(nm, Inl e)]\<rparr>"
        by (simp add: tcDiagnose_def)
      then show ?thesis by (simp add: keepsFile_fields)
    next
      case (Inr res)
      obtain diags tc1 where res: "res = (diags, tc1)" by (cases res) auto
      with assms r True Inr have tc': "tc' = tc1\<lparr>errorsOf := errorsOf tc1 @ [(nm, Inr diags)]\<rparr>"
        by (simp add: tcDiagnose_def)
      from keepsFile_tcGetAllDiagnostics[OF Inr[unfolded res]]
      show ?thesis unfolding tc' by (rule keepsFile_then_fields) simp_all
    qed
  qed
qed

lemma keepsFile_tcStep:
  assumes "tcStep E X ev tc = Some tc'"
  shows "keepsFile x tc tc'"
proof (cases ev)
  case (TcCanEmitLoaded root nm)
  with assms have "tcFiles tc' = tcFiles tc \<and> tcFetchCalls tc' = tcFetchCalls tc"
    by (auto split: option.splits)
  then show ?thesis by (simp add: keepsFile_fields)
qed (use assms in \<open>auto intro: keepsFile_tcFetched keepsFile_tcDepsResolved
  keepsFile_tcDefaultLibResolved keepsFile_tcLoadedDone keepsFile_tcCanEmitStart
  keepsFile_tcDiagnose\<close>)

lemma keepsFile_tcRun:
  "tcRun E X evs tc = Some tc' \<Longrightarrow> keepsFile x tc tc'"
proof (induction evs arbitrary: tc)
  case Nil
  then show ?case by (simp add: keepsFile_refl)
next
  case (Cons ev evs)
  from Cons.prems obtain tc1 where
    s: "tcStep E X ev tc = Some tc1" and rest: "tcRun E X evs tc1 = Some tc'"
    by (auto split: option.splits)
  from keepsFile_trans[OF keepsFile_tcStep[OF s] Cons.IH[OF rest]] show ?case .
qed

lemma registerFile_entry:
  "\<exists>f. map_of (tcFiles (snd (registerFile E x tc))) x = Some f \<and> fileId f = fst (registerFile E x tc)"
  by (cases "map_of (tcFiles tc) x") (auto simp: registerFile_def map_add_def)

lemma registerFile_again:
  assumes "tcRun E X evs (snd (registerFile E x tc)) = Some tc'"
  shows "registerFile E x tc' = (fst (registerFile E x tc), tc') \<and>
         tcFetches tc' x = tcFetches (snd (registerFile E x tc)) x"
proof -
  from registerFile_entry obtain f where
    f: "map_of (tcFiles (snd (registerFile E x tc))) x = Some f"
       "fileId f = fst (registerFile E x tc)" by blast
  from keepsFile_tcRun[OF assms, of x] f show ?thesis
    by (auto simp: keepsFile_def registerFile_present split: option.splits)
qed

lemma registerFile_fetches: "tcFetches (snd (registerFile E x tc)) x \<le> tcFetches tc x + 1"
  by (auto simp: registerFile_def tcFetches_def split: option.splits)


lemma diagnoseDep_skips:
  "map_of (tcFiles tc) dep = Some f \<Longrightarrow> isDefaultLib f \<or> checked f \<Longrightarrow>
   diagnoseDep p dep (diags, tc) = (diags, tc)"
  by (auto simp: diagnoseDep_def)

section \<open>Properties of the checker's readiness wait\<close>









section \<open>The example sessions of the type checker, evaluated\<close>

lemma broken_check: "check brokenEnv ''a.ts'' ''A'' emptyChecker = Inr checkerStart"
  by code_simp

lemma broken_run: "tcRun brokenEnv exampleChecker brokenEvents checkerStart = Some brokenStuck"
  by code_simp

lemma broken_quiescent: "tcStep brokenEnv exampleChecker ev brokenStuck = None"
proof (cases ev)
  case (TcFetched nm)
  then show ?thesis by (simp add: tcFetched_def brokenStuck_def)
next
  case (TcDepsResolved nm)
  then show ?thesis by (simp add: tcDepsResolved_def brokenStuck_def)
next
  case TcDefaultLibResolved
  then show ?thesis by (simp add: tcDefaultLibResolved_def brokenStuck_def)
next
  case (TcLoadedDone nm)
  then show ?thesis by (simp add: tcLoadedDone_def brokenStuck_def)
next
  case (TcCanEmitStart nm)
  then show ?thesis by (simp add: tcCanEmitStart_def brokenStuck_def)
next
  case (TcCanEmitLoaded root nm)
  then show ?thesis by (simp add: tcCanEmitLoaded_def brokenStuck_def)
next
  case (TcDiagnose nm)
  then show ?thesis by (simp add: tcDiagnose_def brokenStuck_def status_def)
qed

lemma broken_compiler:
  "map_option (\<lambda>(c, r). (status r, registrations c ''missing.d.ts''))
     (run brokenEnv brokenCompilerEvents
        (snd (load brokenEnv ''a.ts'' emptyCompiler),
         canEmit (files (snd (load brokenEnv ''a.ts'' emptyCompiler))) ''a.ts''))
   = Some (Rejected (LoadError ''missing.d.ts''), 0)"
  by code_simp

lemma libReference_check: "check libReferenceEnv ''a.ts'' ''A'' emptyChecker = Inr checkerStart"
  by code_simp

lemma libReference_run:
  "tcRun libReferenceEnv exampleChecker libReferenceEvents checkerStart = Some libReferenceChecked"
  by code_simp

lemma libReference_quiescent: "tcStep libReferenceEnv exampleChecker ev libReferenceChecked = None"
proof (cases ev)
  case (TcFetched nm)
  then show ?thesis by (simp add: tcFetched_def libReferenceChecked_def)
next
  case (TcDepsResolved nm)
  then show ?thesis by (simp add: tcDepsResolved_def libReferenceChecked_def)
next
  case TcDefaultLibResolved
  then show ?thesis by (simp add: tcDefaultLibResolved_def libReferenceChecked_def)
next
  case (TcLoadedDone nm)
  then show ?thesis by (simp add: tcLoadedDone_def libReferenceChecked_def)
next
  case (TcCanEmitStart nm)
  then show ?thesis by (simp add: tcCanEmitStart_def libReferenceChecked_def)
next
  case (TcCanEmitLoaded root nm)
  then show ?thesis by (simp add: tcCanEmitLoaded_def libReferenceChecked_def)
next
  case (TcDiagnose nm)
  then show ?thesis by (simp add: tcDiagnose_def libReferenceChecked_def status_def)
qed

section \<open>Properties of the sessions of the type checker\<close>

subsection \<open>The view of the files\<close>



lemma tcView_None: "tcView tc z = None \<longleftrightarrow> map_of (tcFiles tc) z = None"
  by (simp add: tcView_def)





lemma registerFile_fields [simp]:
  "hostFiles (snd (registerFile E nm tc)) = hostFiles tc"
  "requests (snd (registerFile E nm tc)) = requests tc"
  "errorsOf (snd (registerFile E nm tc)) = errorsOf tc"
  "defaultLibResolved (snd (registerFile E nm tc)) = defaultLibResolved tc"
  "defaultLibFileName (snd (registerFile E nm tc)) = defaultLibFileName tc"
  by (simp_all add: registerFile_def split: option.splits)

lemma registerAll_fields [simp]:
  "hostFiles (fold (\<lambda>res tc. snd (registerFile E res tc)) ds tc) = hostFiles tc"
  "requests (fold (\<lambda>res tc. snd (registerFile E res tc)) ds tc) = requests tc"
  "errorsOf (fold (\<lambda>res tc. snd (registerFile E res tc)) ds tc) = errorsOf tc"
  "defaultLibResolved (fold (\<lambda>res tc. snd (registerFile E res tc)) ds tc) = defaultLibResolved tc"
  "defaultLibFileName (fold (\<lambda>res tc. snd (registerFile E res tc)) ds tc) = defaultLibFileName tc"
  by (induction ds arbitrary: tc) simp_all



lemma updateTcFile_fields [simp]:
  "hostFiles (updateTcFile nm g tc) = hostFiles tc"
  "requests (updateTcFile nm g tc) = requests tc"
  "errorsOf (updateTcFile nm g tc) = errorsOf tc"
  "defaultLibResolved (updateTcFile nm g tc) = defaultLibResolved tc"
  "defaultLibFileName (updateTcFile nm g tc) = defaultLibFileName tc"
  by (simp_all add: updateTcFile_def)

subsection \<open>What the inputs do\<close>













subsection \<open>Requests while the files are loading\<close>



lemma viewStable_refl: "viewStable v v"
  by (auto simp: viewStable_def)





subsection \<open>The invariant\<close>























subsection \<open>Progress and the fulfilled request\<close>



subsection \<open>The remaining work decreases\<close>










subsection \<open>The example session of the checker, evaluated\<close>












section \<open>The claim about the readiness wait\<close>


section \<open>The claims about the registries, failed fetches and the default library\<close>

text \<open>
  C2.  \<open>load\<close> of the incremental compiler and \<open>registerFile\<close> of the type checker are
  get-or-create operations: after a first call for \<open>x\<close>, and whatever callbacks have
  run since, a second call returns what the first returned (the same promise, the same
  file object) and leaves the state as it is; \<open>x\<close> has then been fetched as often as
  after the first call, which fetched it at most once.
\<close>

theorem registry_getOrCreate_once:
  "(\<forall>evs r c' r'. run E evs (snd (load E x c), r) = Some (c', r') \<longrightarrow>
       load E x c' = (fst (load E x c), c') \<and>
       fetches c' x = fetches (snd (load E x c)) x) \<and>
   fetches (snd (load E x c)) x \<le> fetches c x + 1 \<and>
   (\<forall>evs tc'. tcRun E X evs (snd (registerFile E x tc)) = Some tc' \<longrightarrow>
       registerFile E x tc' = (fst (registerFile E x tc), tc') \<and>
       tcFetches tc' x = tcFetches (snd (registerFile E x tc)) x) \<and>
   tcFetches (snd (registerFile E x tc)) x \<le> tcFetches tc x + 1"
  using load_again[of E _ x c] load_fetches[of E x c]
    registerFile_again[of E X _ x tc] registerFile_fetches[of E x tc]
  by blast

theorem registry_getOrCreate_once_witness:
  "run exampleEnv exampleEvents
     (snd (load exampleEnv ''a.ts'' emptyCompiler),
      canEmit (files exampleStart) ''a.ts'') = Some (exampleLoaded, exampleReady) \<and>
   load exampleEnv ''a.ts'' exampleLoaded = (fst (load exampleEnv ''a.ts'' emptyCompiler), exampleLoaded) \<and>
   fst (load exampleEnv ''a.ts'' emptyCompiler) = 0 \<and>
   fetches exampleLoaded ''a.ts'' = 1 \<and>
   tcRun libReferenceEnv exampleChecker libReferenceEvents
     (snd (registerFile libReferenceEnv ''a.ts'' checkerStart)) = Some libReferenceChecked \<and>
   registerFile libReferenceEnv ''a.ts'' libReferenceChecked =
     (fst (registerFile libReferenceEnv ''a.ts'' checkerStart), libReferenceChecked) \<and>
   fst (registerFile libReferenceEnv ''a.ts'' checkerStart) = 0"
proof -
  have r1: "run exampleEnv exampleEvents
     (snd (load exampleEnv ''a.ts'' emptyCompiler),
      canEmit (files exampleStart) ''a.ts'') = Some (exampleLoaded, exampleReady)"
    using example_run by (simp add: exampleStart_def)
  have r2: "tcRun libReferenceEnv exampleChecker libReferenceEvents
     (snd (registerFile libReferenceEnv ''a.ts'' checkerStart)) = Some libReferenceChecked"
    by code_simp
  have v: "fst (load exampleEnv ''a.ts'' emptyCompiler) = 0"
    "fetches (snd (load exampleEnv ''a.ts'' emptyCompiler)) ''a.ts'' = 1"
    "fst (registerFile libReferenceEnv ''a.ts'' checkerStart) = 0"
    by code_simp+
  from registry_getOrCreate_once[of exampleEnv "''a.ts''" emptyCompiler exampleChecker checkerStart]
    r1 v
  have a: "load exampleEnv ''a.ts'' exampleLoaded =
      (fst (load exampleEnv ''a.ts'' emptyCompiler), exampleLoaded) \<and>
      fetches exampleLoaded ''a.ts'' = 1" by metis
  from registry_getOrCreate_once[of libReferenceEnv "''a.ts''" emptyCompiler exampleChecker checkerStart]
    r2
  have b: "registerFile libReferenceEnv ''a.ts'' libReferenceChecked =
     (fst (registerFile libReferenceEnv ''a.ts'' checkerStart), libReferenceChecked)" by metis
  from r1 r2 v a b show ?thesis by simp
qed

text \<open>
  C3.  In the type checker a failed fetch of a declaration file does not fail anything:
  the callback of the fetch has no rejection handler and the file's \<open>source\<close> is never
  settled.  In the session below \<open>a.ts\<close> references \<open>missing.d.ts\<close>, whose fetch fails;
  the session reaches a state where no callback can happen any more and the \<open>errors\<close>
  promise of \<open>a.ts\<close> is still pending: the check request hangs.
\<close>

theorem checker_fetch_failure_hangs:
  "fetch brokenEnv ''missing.d.ts'' = Inl (LoadError ''missing.d.ts'') \<and>
   check brokenEnv ''a.ts'' ''A'' emptyChecker = Inr checkerStart \<and>
   tcRun brokenEnv exampleChecker brokenEvents checkerStart = Some brokenStuck \<and>
   map_of (errorsOf brokenStuck) ''a.ts'' = None \<and>
   (\<forall>ev. tcStep brokenEnv exampleChecker ev brokenStuck = None)"
proof -
  have "fetch brokenEnv ''missing.d.ts'' = Inl (LoadError ''missing.d.ts'')" by code_simp
  moreover have "map_of (errorsOf brokenStuck) ''a.ts'' = None" by code_simp
  ultimately show ?thesis
    using broken_check broken_run broken_quiescent by simp
qed

text \<open>
  C10.  The default library can be passed to the syntactic and semantic diagnostics.
  A file is flagged as the default library only when it is registered after the
  default library's name has been resolved.  In the session below \<open>a.ts\<close>, the first file
  checked, references the default library itself: \<open>lib.d.ts\<close> is registered as a
  dependency before \<open>defaultLibFileName\<close> is set and stays unflagged.  The callbacks run
  in the order the promises give them until none is left.  \<open>getAllDiagnostics\<close> of the
  \<open>errors\<close> chain of \<open>lib.d.ts\<close> then passes the library to both diagnostics and the
  \<open>errors\<close> promise of \<open>lib.d.ts\<close> is fulfilled with the library's diagnostics; the
  request for \<open>a.ts\<close>, which runs behind it, finds the library \<open>checked\<close> and returns the
  diagnostics of \<open>a.ts\<close> alone.
\<close>

theorem checker_checks_referenced_default_lib:
  "check libReferenceEnv ''a.ts'' ''A'' emptyChecker = Inr checkerStart \<and>
   tcRun libReferenceEnv exampleChecker libReferenceEvents checkerStart =
     Some libReferenceChecked \<and>
   (\<forall>ev. tcStep libReferenceEnv exampleChecker ev libReferenceChecked = None) \<and>
   defaultLibFileName libReferenceChecked = Some ''lib.d.ts'' \<and>
   map_option isDefaultLib (map_of (tcFiles libReferenceChecked) ''lib.d.ts'') = Some False \<and>
   ProgramSyntactic ''lib.d.ts'' \<in> set (programCalls libReferenceChecked) \<and>
   ProgramSemantic ''lib.d.ts'' \<in> set (programCalls libReferenceChecked) \<and>
   map_of (errorsOf libReferenceChecked) ''lib.d.ts'' = Some (Inr [''error in lib.d.ts'']) \<and>
   map_of (errorsOf libReferenceChecked) ''a.ts'' = Some (Inr [''error in a.ts''])"
proof -
  have "defaultLibFileName libReferenceChecked = Some ''lib.d.ts''"
    "map_option isDefaultLib (map_of (tcFiles libReferenceChecked) ''lib.d.ts'') = Some False"
    "ProgramSyntactic ''lib.d.ts'' \<in> set (programCalls libReferenceChecked)"
    "ProgramSemantic ''lib.d.ts'' \<in> set (programCalls libReferenceChecked)"
    "map_of (errorsOf libReferenceChecked) ''lib.d.ts'' = Some (Inr [''error in lib.d.ts''])"
    "map_of (errorsOf libReferenceChecked) ''a.ts'' = Some (Inr [''error in a.ts''])"
    by code_simp+
  then show ?thesis
    using libReference_check libReference_run libReference_quiescent by simp
qed
end
